theory Spec2Isabelle
  imports Complex_Main "HOL-Library.Multiset"
begin

section \<open>Strings\<close>

text \<open>
  A JavaScript string is a sequence of UTF-16 code units. The model uses \<^typ>\<open>string\<close>
  and reads a \<^typ>\<open>char\<close> as one code unit below 256, so \<^const>\<open>length\<close> is the
  \<^verbatim>\<open>length\<close> of the source string.
\<close>

definition isDigitChar :: "char \<Rightarrow> bool" where
  "isDigitChar c = (let n = (of_char c :: nat) in 48 \<le> n \<and> n \<le> 57)"

definition isLowerAZ :: "char \<Rightarrow> bool" where
  "isLowerAZ c = (let n = (of_char c :: nat) in 97 \<le> n \<and> n \<le> 122)"

definition isUpperAZ :: "char \<Rightarrow> bool" where
  "isUpperAZ c = (let n = (of_char c :: nat) in 65 \<le> n \<and> n \<le> 90)"

text \<open>The class \<^verbatim>\<open>\w\<close> of a regular expression without the \<^verbatim>\<open>u\<close> flag: \<^verbatim>\<open>[A-Za-z0-9_]\<close>.\<close>

definition isWordChar :: "char \<Rightarrow> bool" where
  "isWordChar c = (isDigitChar c \<or> isUpperAZ c \<or> c = CHR ''_'' \<or> isLowerAZ c)"

text \<open>
  The class \<^verbatim>\<open>\s\<close>, which is also what \<^verbatim>\<open>trim()\<close> removes: tab, line feed, vertical
  tab, form feed, carriage return, space and the no-break space (the members below 256).
\<close>

definition isSpaceChar :: "char \<Rightarrow> bool" where
  "isSpaceChar c = ((of_char c :: nat) \<in> {9, 10, 11, 12, 13, 32, 160})"

text \<open>
  \<^verbatim>\<open>toLowerCase()\<close> on code units below 256: the letters A to Z, and the accented capitals
  192 to 222 except the multiplication sign 215, move up by 32.
\<close>

definition toLowerChar :: "char \<Rightarrow> char" where
  "toLowerChar c =
     (let n = (of_char c :: nat)
      in if (65 \<le> n \<and> n \<le> 90) \<or> (192 \<le> n \<and> n \<le> 222 \<and> n \<noteq> 215)
         then char_of (n + 32) else c)"

definition toLowerCase :: "string \<Rightarrow> string" where
  "toLowerCase s = map toLowerChar s"

text \<open>\<^verbatim>\<open>s.substring(i, j)\<close> for \<open>i \<le> j\<close>; both ends are clamped to the length.\<close>

definition substring :: "string \<Rightarrow> nat \<Rightarrow> nat \<Rightarrow> string" where
  "substring s i j = take (j - i) (drop i s)"

section \<open>Similarity scorer: \<^verbatim>\<open>diceCoefficient\<close>\<close>

text \<open>
  A JavaScript \<^verbatim>\<open>Set\<close> of strings is a duplicate-free list in insertion order.
\<close>

definition setAdd :: "string \<Rightarrow> string list \<Rightarrow> string list" where
  "setAdd x S = (if x \<in> set S then S else S @ [x])"

definition setHas :: "string \<Rightarrow> string list \<Rightarrow> bool" where
  "setHas x S = (x \<in> set S)"

definition setDelete :: "string \<Rightarrow> string list \<Rightarrow> string list" where
  "setDelete x S = removeAll x S"

text \<open>\<^verbatim>\<open>str.toLowerCase().replace(/[^a-z0-9]/g, '')\<close>\<close>

definition foldAlnum :: "string \<Rightarrow> string" where
  "foldAlnum str = filter (\<lambda>c. isLowerAZ c \<or> isDigitChar c) (toLowerCase str)"

text \<open>
  The first loop: \<^verbatim>\<open>for (i = 0; i < s1.length - 1; i++) bigrams1.add(s1.substring(i, i + 2))\<close>.
  (\<open>length s1 - 1\<close> is a subtraction of naturals; at length 0 both the source and the
  model run the loop zero times.)
\<close>

definition collectBigrams :: "string \<Rightarrow> string list" where
  "collectBigrams s1 =
     fold (\<lambda>i bigrams1. setAdd (substring s1 i (i + 2)) bigrams1) [0 ..< length s1 - 1] []"

text \<open>
  The second loop, with its two variables \<^verbatim>\<open>matches\<close> and \<^verbatim>\<open>bigrams1\<close> as the state.
\<close>

definition countMatches :: "string \<Rightarrow> string list \<Rightarrow> nat \<times> string list" where
  "countMatches s2 bigrams1 =
     fold (\<lambda>i (matches, bigrams1).
             let bigram = substring s2 i (i + 2)
             in if setHas bigram bigrams1 then (matches + 1, setDelete bigram bigrams1)
                else (matches, bigrams1))
          [0 ..< length s2 - 1] (0, bigrams1)"

text \<open>
  The result is the exact quotient of the two integers; the double that the source
  returns is this quotient rounded (see \<open>toDouble\<close> below, applied where the value
  enters further arithmetic).
\<close>

definition diceCoefficient :: "string \<Rightarrow> string \<Rightarrow> rat" where
  "diceCoefficient str1 str2 =
     (let s1 = foldAlnum str1; s2 = foldAlnum str2
      in if s1 = s2 then 1
         else if length s1 < 2 \<or> length s2 < 2 then 0
         else let bigrams1 = collectBigrams s1;
                  matches = fst (countMatches s2 bigrams1)
              in of_nat (2 * matches) / of_nat (length s1 + length s2 - 2))"

text \<open>
  The score as section 4.2 of the specification words it, for comparison: the overlapping
  bigrams of each folded string as a multiset, and twice the size of the multiset
  intersection over \<open>len a + len b - 2\<close>.
\<close>

definition bigramsOf :: "string \<Rightarrow> string list" where
  "bigramsOf s = map (\<lambda>i. substring s i (i + 2)) [0 ..< length s - 1]"

definition multisetDice :: "string \<Rightarrow> string \<Rightarrow> rat" where
  "multisetDice a b =
     (let s1 = foldAlnum a; s2 = foldAlnum b
      in of_nat (2 * size (mset (bigramsOf s1) \<inter># mset (bigramsOf s2)))
           / of_nat (length s1 + length s2 - 2))"

section \<open>Name normalizer: \<^verbatim>\<open>normalizeCompanyName\<close>\<close>

text \<open>
  The first replacement is
  \<^verbatim>\<open>/\b(inc|incorporated|llc|ltd|limited|corp|corporation|co|company)\b\.?/gi\<close>.
  The alternatives are tried in the order written.
\<close>

definition suffixWords :: "string list" where
  "suffixWords = [''inc'', ''incorporated'', ''llc'', ''ltd'', ''limited'', ''corp'',
                  ''corporation'', ''co'', ''company'']"

text \<open>
  \<^verbatim>\<open>\b\<close> at a position: exactly one of the character before it and the character after
  it is a word character (a missing character counts as a non-word character).
  \<open>prevWord\<close> says whether the character before the position is a word character.
\<close>

definition wordBoundary :: "bool \<Rightarrow> string \<Rightarrow> bool" where
  "wordBoundary prevWord s = (prevWord \<noteq> (s \<noteq> [] \<and> isWordChar (hd s)))"

text \<open>
  The group followed by the second \<^verbatim>\<open>\b\<close>: the first alternative that matches the input
  case-insensitively and ends at a word boundary wins; the result is the input after it.
  Under the \<^verbatim>\<open>i\<close> flag a code unit below 256 matches a pattern letter exactly when its
  lower case is that letter.
\<close>

fun matchAlternatives :: "string list \<Rightarrow> string \<Rightarrow> string option" where
  "matchAlternatives [] s = None"
| "matchAlternatives (w # ws) s =
     (if length w \<le> length s \<and> map toLowerChar (take (length w) s) = w
         \<and> wordBoundary True (drop (length w) s)
      then Some (drop (length w) s)
      else matchAlternatives ws s)"

definition matchSuffixAt :: "bool \<Rightarrow> string \<Rightarrow> string option" where
  "matchSuffixAt prevWord s =
     (if wordBoundary prevWord s then matchAlternatives suffixWords s else None)"

text \<open>
  The global replacement by the empty string: scan from the left; where the pattern
  matches, drop the match (with the period after it, if there is one) and go on after it;
  elsewhere keep the character.
\<close>

function removeSuffixes :: "bool \<Rightarrow> string \<Rightarrow> string" where
  "removeSuffixes prevWord [] = []"
| "removeSuffixes prevWord (c # cs) =
     (case matchSuffixAt prevWord (c # cs) of
        None \<Rightarrow> c # removeSuffixes (isWordChar c) cs
      | Some rest \<Rightarrow>
          (case rest of
             [] \<Rightarrow> []
           | d # rest' \<Rightarrow>
               if d = CHR ''.'' then removeSuffixes False rest'
               else removeSuffixes True (d # rest')))"
  by pat_completeness auto
termination
proof (relation "measure (\<lambda>(p, s). length s)", goal_cases)
  case 1
  then show ?case by simp
next
  case (2 prevWord c cs)
  then show ?case by simp
next
  case (3 prevWord c cs rest d rest')
  have alt: "length r < length s"
    if "matchAlternatives ws s = Some r" and "[] \<notin> set ws" for ws s r
    using that
  proof (induction ws)
    case Nil
    then show ?case by simp
  next
    case (Cons w ws)
    show ?case
    proof (cases "length w \<le> length s \<and> map toLowerChar (take (length w) s) = w
           \<and> wordBoundary True (drop (length w) s)")
      case True
      with Cons.prems have r: "r = drop (length w) s" by simp
      from Cons.prems have "w \<noteq> []" by auto
      then have "0 < length w" by simp
      moreover from True have "length w \<le> length s" by simp
      ultimately have "length s - length w < length s" by arith
      with r show ?thesis by simp
    next
      case False
      with Cons.prems have "matchAlternatives ws s = Some r" by auto
      with Cons show ?thesis by simp
    qed
  qed
  from 3 have "matchAlternatives suffixWords (c # cs) = Some rest"
    by (simp add: matchSuffixAt_def split: if_splits)
  moreover have "[] \<notin> set suffixWords" by (simp add: suffixWords_def)
  ultimately have "length rest < length (c # cs)" by (rule alt)
  with 3 show ?case by simp
next
  case (4 prevWord c cs rest d rest')
  have alt: "length r < length s"
    if "matchAlternatives ws s = Some r" and "[] \<notin> set ws" for ws s r
    using that
  proof (induction ws)
    case Nil
    then show ?case by simp
  next
    case (Cons w ws)
    show ?case
    proof (cases "length w \<le> length s \<and> map toLowerChar (take (length w) s) = w
           \<and> wordBoundary True (drop (length w) s)")
      case True
      with Cons.prems have r: "r = drop (length w) s" by simp
      from Cons.prems have "w \<noteq> []" by auto
      then have "0 < length w" by simp
      moreover from True have "length w \<le> length s" by simp
      ultimately have "length s - length w < length s" by arith
      with r show ?thesis by simp
    next
      case False
      with Cons.prems have "matchAlternatives ws s = Some r" by auto
      with Cons show ?thesis by simp
    qed
  qed
  from 4 have "matchAlternatives suffixWords (c # cs) = Some rest"
    by (simp add: matchSuffixAt_def split: if_splits)
  moreover have "[] \<notin> set suffixWords" by (simp add: suffixWords_def)
  ultimately have "length rest < length (c # cs)" by (rule alt)
  with 4 show ?case by simp
qed

text \<open>\<^verbatim>\<open>.replace(/[^\w\s]/g, '')\<close>\<close>

definition stripPunctuation :: "string \<Rightarrow> string" where
  "stripPunctuation s = filter (\<lambda>c. isWordChar c \<or> isSpaceChar c) s"

text \<open>\<^verbatim>\<open>.replace(/\s+/g, ' ')\<close>: every maximal run of whitespace becomes one space.\<close>

function collapseWhitespace :: "string \<Rightarrow> string" where
  "collapseWhitespace [] = []"
| "collapseWhitespace (c # cs) =
     (if isSpaceChar c then CHR '' '' # collapseWhitespace (dropWhile isSpaceChar cs)
      else c # collapseWhitespace cs)"
  by pat_completeness auto
termination
proof (relation "measure length", goal_cases)
  case 1
  then show ?case by simp
next
  case (2 c cs)
  then show ?case by (simp add: less_Suc_eq_le length_dropWhile_le)
next
  case (3 c cs)
  then show ?case by simp
qed

definition trim :: "string \<Rightarrow> string" where
  "trim s = rev (dropWhile isSpaceChar (rev (dropWhile isSpaceChar s)))"

definition normalizeCompanyName :: "string \<Rightarrow> string" where
  "normalizeCompanyName name =
     trim (collapseWhitespace (stripPunctuation (removeSuffixes False (toLowerCase name))))"

section \<open>Auxiliary notions for the normalizer\<close>

text \<open>
  These are not part of the program. They describe its inputs and outputs: the word
  characters that lower-casing leaves alone, strings made of those and whitespace, the
  whitespace-separated tokens of a string, and the tokens joined by single spaces.
\<close>

definition isLowerWord :: "char \<Rightarrow> bool" where
  "isLowerWord c = (isLowerAZ c \<or> isDigitChar c \<or> c = CHR ''_'')"

definition plainLower :: "string \<Rightarrow> bool" where
  "plainLower s = (\<forall>c\<in>set s. isSpaceChar c \<or> isLowerWord c)"

text \<open>The maximal runs of non-whitespace characters, from left to right.\<close>

function tokens :: "string \<Rightarrow> string list" where
  "tokens [] = []"
| "tokens (c # cs) =
     (if isSpaceChar c then tokens cs
      else (c # takeWhile (\<lambda>d. \<not> isSpaceChar d) cs)
             # tokens (dropWhile (\<lambda>d. \<not> isSpaceChar d) cs))"
  by pat_completeness auto
termination
proof (relation "measure length", goal_cases)
  case 1
  then show ?case by simp
next
  case (2 c cs)
  then show ?case by simp
next
  case (3 c cs)
  then show ?case by (simp add: less_Suc_eq_le length_dropWhile_le)
qed

fun joinWords :: "string list \<Rightarrow> string" where
  "joinWords [] = []"
| "joinWords [w] = w"
| "joinWords (w # v # ws) = w @ CHR '' '' # joinWords (v # ws)"

text \<open>
  What the first replacement does to a string of lower-case word characters and
  whitespace: every token that is one of the suffix words disappears, everything else
  (the whitespace included) stays.
\<close>

function dropSuffixTokens :: "string \<Rightarrow> string" where
  "dropSuffixTokens [] = []"
| "dropSuffixTokens (c # cs) =
     (if isSpaceChar c then c # dropSuffixTokens cs
      else let w = c # takeWhile (\<lambda>d. \<not> isSpaceChar d) cs;
               r = dropWhile (\<lambda>d. \<not> isSpaceChar d) cs
           in if w \<in> set suffixWords then dropSuffixTokens r else w @ dropSuffixTokens r)"
  by pat_completeness auto
termination
proof (relation "measure length", goal_cases)
  case 1
  then show ?case by simp
next
  case (2 c cs)
  then show ?case by simp
next
  case (3 c cs w r)
  then show ?case by (simp add: less_Suc_eq_le length_dropWhile_le)
next
  case (4 c cs w r)
  then show ?case by (simp add: less_Suc_eq_le length_dropWhile_le)
qed


text \<open>
  What the first replacement does to any string, said in terms of words as the regular
  expression sees them, the maximal runs of word characters: a run that is a suffix word
  (in any case) disappears, with the period that follows it if there is one; every other
  run and every other character stays.
\<close>

function dropSuffixRuns :: "string \<Rightarrow> string" where
  "dropSuffixRuns [] = []"
| "dropSuffixRuns (c # cs) =
     (if \<not> isWordChar c then c # dropSuffixRuns cs
      else let w = c # takeWhile isWordChar cs;
               r = dropWhile isWordChar cs
           in if map toLowerChar w \<in> set suffixWords
              then (case r of
                      [] \<Rightarrow> []
                    | d # r' \<Rightarrow>
                        if d = CHR ''.'' then dropSuffixRuns r' else dropSuffixRuns (d # r'))
              else w @ dropSuffixRuns r)"
  by pat_completeness auto
termination
proof (relation "measure length", goal_cases)
  case 1
  then show ?case by simp
next
  case (2 c cs)
  then show ?case by simp
next
  case (3 c cs w r d r')
  from 3 have eq: "dropWhile isWordChar cs = d # r'" by simp
  have "length (dropWhile isWordChar cs) \<le> length cs" by (rule length_dropWhile_le)
  then have "Suc (length r') \<le> length cs" unfolding eq by simp
  then show ?case by simp
next
  case (4 c cs w r d r')
  from 4 have eq: "dropWhile isWordChar cs = d # r'" by simp
  have "length (dropWhile isWordChar cs) \<le> length cs" by (rule length_dropWhile_le)
  then have "Suc (length r') \<le> length cs" unfolding eq by simp
  then show ?case by simp
next
  case (5 c cs w r)
  have "length (dropWhile isWordChar cs) \<le> length cs" by (rule length_dropWhile_le)
  with 5 show ?case by simp
qed

definition trimEnd :: "string \<Rightarrow> string" where
  "trimEnd s = rev (dropWhile isSpaceChar (rev s))"

section \<open>Double-precision numbers\<close>

text \<open>
  A JavaScript number is an IEEE 754 binary64 value. The model writes such a value as the
  rational it is, and rounds the exact result of every inexact operation (a decimal
  literal, a sum) to the nearest double, ties to the even significand:
  \<open>toDouble x\<close> is the double nearest to \<open>x\<close>. The exponent of a positive \<open>x\<close> is
  found by at most 1022 doublings or 1023 halvings; below the normal range the spacing
  stays at \<open>2^(-1074)\<close>. (Values from \<open>2^1024\<close> on, which round to \<^verbatim>\<open>Infinity\<close>, do not
  occur: every number of the program lies between 0 and 1.1.) Comparisons of doubles,
  \<^verbatim>\<open>Math.min\<close>, \<^verbatim>\<open>Math.max\<close> and the sign of a difference are exact.
\<close>

definition pow2 :: "int \<Rightarrow> rat" where
  "pow2 e = (if 0 \<le> e then 2 ^ nat e else 1 / 2 ^ nat (- e))"

fun exponentBelow :: "nat \<Rightarrow> rat \<Rightarrow> int \<Rightarrow> int" where
  "exponentBelow 0 x e = e"
| "exponentBelow (Suc n) x e = (if x < 1 then exponentBelow n (2 * x) (e - 1) else e)"

fun exponentAbove :: "nat \<Rightarrow> rat \<Rightarrow> int \<Rightarrow> int" where
  "exponentAbove 0 x e = e"
| "exponentAbove (Suc n) x e = (if 2 \<le> x then exponentAbove n (x / 2) (e + 1) else e)"

definition exponentOf :: "rat \<Rightarrow> int" where
  "exponentOf x = (if x < 1 then exponentBelow 1022 x 0 else exponentAbove 1023 x 0)"

definition roundHalfEven :: "rat \<Rightarrow> int" where
  "roundHalfEven q =
     (let f = \<lfloor>q\<rfloor>; d = q - of_int f
      in if d < 1 / 2 then f else if 1 / 2 < d then f + 1 else if even f then f else f + 1)"

definition toDouble :: "rat \<Rightarrow> rat" where
  "toDouble x =
     (if x = 0 then 0
      else let a = \<bar>x\<bar>;
               ulp = pow2 (exponentOf a - 52);
               n = roundHalfEven (a / ulp)
           in sgn x * of_int n * ulp)"

section \<open>Registry entities and the combined match score\<close>

text \<open>
  JavaScript truthiness of a value that is a string, \<^verbatim>\<open>undefined\<close> or \<^verbatim>\<open>null\<close>: only a
  non-empty string is truthy. \<open>orOpt a b\<close> is \<^verbatim>\<open>a || b\<close>, and \<open>orElse a d\<close> is \<^verbatim>\<open>a || d\<close>
  for a string literal \<open>d\<close>.
\<close>

definition truthy :: "string option \<Rightarrow> bool" where
  "truthy v = (case v of None \<Rightarrow> False | Some s \<Rightarrow> s \<noteq> [])"

definition orOpt :: "string option \<Rightarrow> string option \<Rightarrow> string option" where
  "orOpt a b = (if truthy a then a else b)"

definition orElse :: "string option \<Rightarrow> string \<Rightarrow> string" where
  "orElse a d = (case a of None \<Rightarrow> d | Some s \<Rightarrow> if s = [] then d else s)"

text \<open>
  A raw entity as the registry (or the local table, after conversion) returns it. The
  fields are the ones the resolution reads: those of \<^verbatim>\<open>entityRegistration\<close> (\<open>reg_\<close>), the
  state of \<^verbatim>\<open>coreData.physicalAddress\<close> (\<open>addr_\<close>), and the two top-level fall-backs
  \<^verbatim>\<open>raw.ueiSAM\<close> and \<^verbatim>\<open>raw.legalBusinessName\<close> (\<open>top_\<close>). Any of them can be missing.
\<close>

record rawEntity =
  reg_ueiSAM :: "string option"
  reg_legalBusinessName :: "string option"
  reg_dbaName :: "string option"
  reg_cageCode :: "string option"
  reg_registrationStatus :: "string option"
  reg_registrationExpirationDate :: "string option"
  addr_stateOrProvinceCode :: "string option"
  top_ueiSAM :: "string option"
  top_legalBusinessName :: "string option"

record samEntity =
  uei :: "string option"
  legalBusinessName :: "string option"
  dbaName :: "string option"
  cageCode :: "string option"
  registrationStatus :: string
  registrationExpirationDate :: "string option"
  stateOrProvinceCode :: string

definition normalizeSamEntity :: "rawEntity \<Rightarrow> samEntity" where
  "normalizeSamEntity raw =
     \<lparr> uei = orOpt (reg_ueiSAM raw) (top_ueiSAM raw),
       legalBusinessName = orOpt (reg_legalBusinessName raw) (top_legalBusinessName raw),
       dbaName = reg_dbaName raw,
       cageCode = reg_cageCode raw,
       registrationStatus = orElse (reg_registrationStatus raw) ''Unknown'',
       registrationExpirationDate = reg_registrationExpirationDate raw,
       stateOrProvinceCode = orElse (addr_stateOrProvinceCode raw) '''' \<rparr>"

text \<open>What can be thrown inside \<^verbatim>\<open>processCompanyCreation\<close>; its \<^verbatim>\<open>catch\<close> logs all alike.\<close>

datatype failure =
    TypeError       \<comment> \<open>\<^verbatim>\<open>toLowerCase\<close> of a missing name\<close>
  | FetchFailed     \<comment> \<open>\<^verbatim>\<open>fetch\<close> rejected: no response arrived\<close>
  | JsonError       \<comment> \<open>\<^verbatim>\<open>response.json()\<close> rejected: the body is not JSON\<close>
  | DbFailed        \<comment> \<open>the database client threw\<close>
  | HubSpotError    \<comment> \<open>\<^verbatim>\<open>getCompanyFromHubSpot\<close> threw\<close>

record scoredMatch =
  entity :: samEntity
  raw :: rawEntity
  score :: rat

text \<open>
  The callback of \<^verbatim>\<open>samEntities.map\<close>. \<^verbatim>\<open>normalizeCompanyName\<close> of a missing legal name
  throws. \<open>state\<close> is the company's own state property. The numbers are doubles:
  \<^verbatim>\<open>diceCoefficient\<close> returns its quotient rounded, \<^verbatim>\<open>0.1\<close> is the double nearest to
  1/10, and the sum \<^verbatim>\<open>Math.max(nameScore, dbaScore) + stateBonus\<close> is rounded again
  (so 0.7 + 0.1 is 0.7999999999999999, below 0.8).
\<close>

definition scoreEntity :: "string \<Rightarrow> string option \<Rightarrow> rawEntity \<Rightarrow> failure + scoredMatch" where
  "scoreEntity companyName state e =
     (let normalized = normalizeSamEntity e
      in case legalBusinessName normalized of
           None \<Rightarrow> Inl TypeError
         | Some legal \<Rightarrow>
             let nameScore = toDouble (diceCoefficient (normalizeCompanyName companyName)
                                                       (normalizeCompanyName legal));
                 dbaScore = (case dbaName normalized of
                               None \<Rightarrow> 0
                             | Some dba \<Rightarrow>
                                 if dba = [] then 0
                                 else toDouble (diceCoefficient (normalizeCompanyName companyName)
                                                                (normalizeCompanyName dba)));
                 stateBonus = (case state of
                                 None \<Rightarrow> 0
                               | Some st \<Rightarrow>
                                   if st \<noteq> [] \<and> stateOrProvinceCode normalized \<noteq> []
                                      \<and> toLowerCase st = toLowerCase (stateOrProvinceCode normalized)
                                   then toDouble (1 / 10) else 0)
             in Inr \<lparr> entity = normalized, raw = e,
                      score = min 1 (toDouble (max nameScore dbaScore + stateBonus)) \<rparr>)"

text \<open>\<^verbatim>\<open>samEntities.map(...)\<close>: the first throw ends the whole map.\<close>

fun scoreAll :: "string \<Rightarrow> string option \<Rightarrow> rawEntity list \<Rightarrow> failure + scoredMatch list" where
  "scoreAll companyName state [] = Inr []"
| "scoreAll companyName state (e # es) =
     (case scoreEntity companyName state e of
        Inl f \<Rightarrow> Inl f
      | Inr m \<Rightarrow>
          (case scoreAll companyName state es of
             Inl f \<Rightarrow> Inl f
           | Inr ms \<Rightarrow> Inr (m # ms)))"

text \<open>
  \<^verbatim>\<open>.sort((a, b) => b.score - a.score)\<close>: the difference of two doubles has the sign of
  their exact difference, \<^verbatim>\<open>Array.prototype.sort\<close> is stable, and so is insertion sort on
  the negated score.
\<close>

definition sortByScoreDesc :: "scoredMatch list \<Rightarrow> scoredMatch list" where
  "sortByScoreDesc ms = sort_key (\<lambda>m. - score m) ms"

section \<open>Resolution classifier\<close>

text \<open>
  The outcome of \<^verbatim>\<open>processCompanyCreation\<close> is the branch it takes and the data it hands
  to the tables: nothing (no name), a \<^verbatim>\<open>no_match\<close> row with its \<^verbatim>\<open>search_results\<close>, a
  \<^verbatim>\<open>pending\<close> row with its \<^verbatim>\<open>search_results\<close>, the automatic link, or the error log of
  the \<^verbatim>\<open>catch\<close>.
\<close>

datatype outcome =
    Skipped
  | NoMatch "rawEntity list"
  | Pending "(samEntity \<times> rat) list"
  | Matched scoredMatch
  | ProcessingError

text \<open>
  Lines 486 to 626: from the retrieved entities to the outcome. The floor \<^verbatim>\<open>0.5\<close> is a
  double; the threshold \<^verbatim>\<open>0.55\<close> is the double nearest to 11/20.
\<close>

definition classify :: "string \<Rightarrow> string option \<Rightarrow> rawEntity list \<Rightarrow> outcome" where
  "classify companyName state samEntities =
     (if length samEntities = 0 then NoMatch []
      else case scoreAll companyName state samEntities of
             Inl f \<Rightarrow> ProcessingError
           | Inr scored \<Rightarrow>
               let matches = sortByScoreDesc (filter (\<lambda>m. 1 / 2 \<le> score m) scored)
               in if length matches = 0 then NoMatch (take 5 samEntities)
                  else let bestMatch = hd matches
                       in if toDouble (11 / 20) \<le> score bestMatch then Matched bestMatch
                          else Pending (map (\<lambda>m. (entity m, score m)) (take 5 matches)))"

section \<open>Candidate retriever: \<^verbatim>\<open>samFetch\<close> and \<^verbatim>\<open>searchSamApi\<close>\<close>

text \<open>
  The registry is outside the program. A request is its list of query parameters; the
  answer is no response at all, or a status with a body that is JSON (with or without an
  \<^verbatim>\<open>entityData\<close> array) or not. The trace records what the program does to the outside,
  in order: requests (with the strategy label \<^verbatim>\<open>samFetch\<close> is called with), delays in
  milliseconds, and queries to the local table. The registry may answer from the whole
  trace so far: the same request can be refused first and served on the retry.
\<close>

type_synonym params = "(string \<times> string) list"

text \<open>
  A body is taken to be either not JSON, or a JSON object as the source declares it
  (\<^verbatim>\<open>{ entityData?: any[] }\<close>). A body that is JSON but no object (\<^verbatim>\<open>null\<close>), on which the
  source throws when it reads \<^verbatim>\<open>data.entityData\<close>, is not represented.
\<close>

datatype body = NotJson | Json "rawEntity list option"

text \<open>
  The value that \<^verbatim>\<open>normalizeStateCode\<close> returns: a string, or one of the two members that
  the plain object \<^verbatim>\<open>STATE_ABBREVIATIONS\<close> inherits under a lower-case name, the
  function \<^verbatim>\<open>Object\<close> (key \<^verbatim>\<open>constructor\<close>) and \<^verbatim>\<open>Object.prototype\<close> (key \<^verbatim>\<open>__proto__\<close>).
  Both are truthy. \<open>stateText\<close> is the string that a template literal or
  \<^verbatim>\<open>URLSearchParams\<close> makes of the value.
\<close>

datatype stateCode = Code string | ObjectConstructor | ObjectPrototype

definition stateText :: "stateCode \<Rightarrow> string" where
  "stateText v =
     (case v of
        Code st \<Rightarrow> st
      | ObjectConstructor \<Rightarrow> ''function Object() { [native code] }''
      | ObjectPrototype \<Rightarrow> ''[object Object]'')"

definition stateParam :: "stateCode option \<Rightarrow> string option" where
  "stateParam v = map_option stateText v"

definition truthyState :: "stateCode option \<Rightarrow> bool" where
  "truthyState v = (case v of None \<Rightarrow> False | Some (Code st) \<Rightarrow> st \<noteq> [] | Some other \<Rightarrow> True)"

datatype reply = NoResponse | Reply nat body

datatype event =
    Fetch string params
  | Delay nat
  | Rpc string "stateCode option" "string option"
  | Select string "stateCode option"

type_synonym backend = "event list \<Rightarrow> params \<Rightarrow> reply"

text \<open>\<^verbatim>\<open>response.ok\<close>\<close>

definition isOk :: "nat \<Rightarrow> bool" where
  "isOk status = (200 \<le> status \<and> status \<le> 299)"

text \<open>\<^verbatim>\<open>await response.json() as { entityData?: any[] }\<close>\<close>

definition json :: "body \<Rightarrow> failure + rawEntity list option" where
  "json b = (case b of NotJson \<Rightarrow> Inl JsonError | Json d \<Rightarrow> Inr d)"

definition samFetch ::
  "backend \<Rightarrow> params \<Rightarrow> string \<Rightarrow> event list \<Rightarrow> (failure + rawEntity list option) \<times> event list" where
  "samFetch registry params strategyName tr =
     (let tr1 = tr @ [Fetch strategyName params]
      in case registry tr params of
           NoResponse \<Rightarrow> (Inl FetchFailed, tr1)
         | Reply status b \<Rightarrow>
             if status = 429 then
               (let tr2 = tr1 @ [Delay 2000];
                    tr3 = tr2 @ [Fetch strategyName params]
                in case registry tr2 params of
                     NoResponse \<Rightarrow> (Inl FetchFailed, tr3)
                   | Reply retryStatus retryBody \<Rightarrow>
                       if \<not> isOk retryStatus then (Inr (Some []), tr3)
                       else (json retryBody, tr3))
             else if \<not> isOk status then (Inr (Some []), tr1)
             else (json b, tr1))"

text \<open>
  \<^verbatim>\<open>!data.entityData || data.entityData.length === 0\<close>. After a throw nothing of the
  function runs any more, so no later condition holds.
\<close>

definition noResults :: "failure + rawEntity list option \<Rightarrow> bool" where
  "noResults d = (case d of Inl f \<Rightarrow> False | Inr None \<Rightarrow> True | Inr (Some es) \<Rightarrow> es = [])"

definition paramsNameState :: "string \<Rightarrow> string \<Rightarrow> string option \<Rightarrow> params" where
  "paramsNameState apiKey normalizedName state =
     [(''api_key'', apiKey), (''legalBusinessName'', normalizedName),
      (''registrationStatus'', ''A'')]
     @ (case state of
          None \<Rightarrow> []
        | Some st \<Rightarrow> if st = [] then [] else [(''physicalAddressStateCode'', st)])"

definition paramsNameOnly :: "string \<Rightarrow> string \<Rightarrow> params" where
  "paramsNameOnly apiKey normalizedName =
     [(''api_key'', apiKey), (''legalBusinessName'', normalizedName),
      (''registrationStatus'', ''A'')]"

definition paramsDomain :: "string \<Rightarrow> string option \<Rightarrow> params" where
  "paramsDomain apiKey domain =
     [(''api_key'', apiKey), (''entityURL'', orElse domain ''''),
      (''registrationStatus'', ''A'')]"

definition paramsSamSearch :: "string \<Rightarrow> string \<Rightarrow> params" where
  "paramsSamSearch apiKey normalizedName =
     [(''api_key'', apiKey), (''samSearch'', normalizedName),
      (''registrationStatus'', ''A'')]"

text \<open>
  \<^verbatim>\<open>searchSamApi\<close>: the four blocks in the order of the source, each reassigning
  \<^verbatim>\<open>data\<close>. \<open>apiKey\<close> is the constant \<^verbatim>\<open>SAM_API_KEY\<close> of the environment.
\<close>

definition searchSamApi ::
  "string \<Rightarrow> backend \<Rightarrow> string \<Rightarrow> string option \<Rightarrow> string option \<Rightarrow> event list
   \<Rightarrow> (failure + rawEntity list) \<times> event list" where
  "searchSamApi apiKey registry name state domain tr0 =
     (let normalizedName = normalizeCompanyName name;
          (data1, tr1) =
             samFetch registry (paramsNameState apiKey normalizedName state) ''name+state'' tr0;
          (data2, tr2) =
             (if noResults data1 \<and> truthy state
              then samFetch registry (paramsNameOnly apiKey normalizedName) ''name only''
                     (tr1 @ [Delay 500])
              else (data1, tr1));
          (data3, tr3) =
             (if noResults data2 \<and> truthy domain
              then samFetch registry (paramsDomain apiKey domain) ''domain''
                     (tr2 @ [Delay 500])
              else (data2, tr2));
          (data4, tr4) =
             (if noResults data3
              then samFetch registry (paramsSamSearch apiKey normalizedName) ''samSearch''
                     (tr3 @ [Delay 500])
              else (data3, tr3))
      in (case data4 of
            Inl f \<Rightarrow> Inl f
          | Inr None \<Rightarrow> Inr []
          | Inr (Some es) \<Rightarrow> Inr es,
          tr4))"

text \<open>
  The chain as section 4.3 of the specification words it, for comparison: the strategies
  that apply, in order, and a loop that stops at the first one with a result.
\<close>

definition applicableStrategies ::
  "string \<Rightarrow> string \<Rightarrow> string option \<Rightarrow> string option \<Rightarrow> (string \<times> params) list" where
  "applicableStrategies apiKey name state domain =
     [(''name+state'', paramsNameState apiKey (normalizeCompanyName name) state)]
     @ (if truthy state
        then [(''name only'', paramsNameOnly apiKey (normalizeCompanyName name))] else [])
     @ (if truthy domain then [(''domain'', paramsDomain apiKey domain)] else [])
     @ [(''samSearch'', paramsSamSearch apiKey (normalizeCompanyName name))]"

fun runChain ::
  "backend \<Rightarrow> (string \<times> params) list \<Rightarrow> event list
   \<Rightarrow> (failure + rawEntity list) \<times> event list" where
  "runChain registry [] tr = (Inr [], tr)"
| "runChain registry ((label, ps) # rest) tr =
     (case samFetch registry ps label tr of
        (Inl f, tr') \<Rightarrow> (Inl f, tr')
      | (Inr None, tr') \<Rightarrow>
          if rest = [] then (Inr [], tr') else runChain registry rest (tr' @ [Delay 500])
      | (Inr (Some es), tr') \<Rightarrow>
          if es \<noteq> [] \<or> rest = [] then (Inr es, tr')
          else runChain registry rest (tr' @ [Delay 500]))"

text \<open>The strategy labels of the requests in a trace, in order.\<close>

fun strategiesOf :: "event list \<Rightarrow> string list" where
  "strategiesOf [] = []"
| "strategiesOf (Fetch label ps # evs) = label # strategiesOf evs"
| "strategiesOf (ev # evs) = strategiesOf evs"

section \<open>Local table, state codes and the result cache: \<^verbatim>\<open>searchSamByName\<close>\<close>

text \<open>
  A row of \<^verbatim>\<open>sam_entities_local\<close> and its conversion to the registry's format. The
  database client answers a stored-procedure call with data, with an error, or throws;
  a table query likewise.
\<close>

record row =
  row_uei :: "string option"
  row_legal_business_name :: "string option"
  row_dba_name :: "string option"
  row_cage_code :: "string option"
  row_registration_status :: "string option"
  row_registration_expiration_date :: "string option"
  row_physical_address_state :: "string option"

definition rowToEntity :: "row \<Rightarrow> rawEntity" where
  "rowToEntity r =
     \<lparr> reg_ueiSAM = row_uei r,
       reg_legalBusinessName = row_legal_business_name r,
       reg_dbaName = row_dba_name r,
       reg_cageCode = row_cage_code r,
       reg_registrationStatus = row_registration_status r,
       reg_registrationExpirationDate = row_registration_expiration_date r,
       addr_stateOrProvinceCode = row_physical_address_state r,
       top_ueiSAM = None,
       top_legalBusinessName = None \<rparr>"

datatype dbReply = DbThrows | DbError | DbData "row list option"

record localDb =
  rpc_search_sam_entities :: "string \<Rightarrow> stateCode option \<Rightarrow> string option \<Rightarrow> dbReply"
  select_sam_entities_local :: "string \<Rightarrow> stateCode option \<Rightarrow> dbReply"

text \<open>\<^verbatim>\<open>state || null\<close>: a falsy value is sent as \<^verbatim>\<open>null\<close>.\<close>

definition orNull :: "string option \<Rightarrow> string option" where
  "orNull v = (if truthy v then v else None)"

definition stateOrNull :: "stateCode option \<Rightarrow> stateCode option" where
  "stateOrNull v = (if truthyState v then v else None)"

definition searchSamLocalDbBasic ::
  "localDb \<Rightarrow> string \<Rightarrow> stateCode option \<Rightarrow> string option \<Rightarrow> event list
   \<Rightarrow> (failure + rawEntity list) \<times> event list" where
  "searchSamLocalDbBasic db name state domain tr =
     (let tr1 = tr @ [Select name (stateOrNull state)]
      in case select_sam_entities_local db name (stateOrNull state) of
           DbThrows \<Rightarrow> (Inl DbFailed, tr1)
         | DbError \<Rightarrow> (Inr [], tr1)
         | DbData d \<Rightarrow>
             (Inr (map rowToEntity (case d of None \<Rightarrow> [] | Some rows \<Rightarrow> rows)), tr1))"

text \<open>
  \<^verbatim>\<open>searchSamLocalDb\<close> wraps everything in \<^verbatim>\<open>try\<close> and returns \<^verbatim>\<open>[]\<close> from its \<^verbatim>\<open>catch\<close>,
  so it never throws.
\<close>

definition searchSamLocalDb ::
  "localDb \<Rightarrow> string \<Rightarrow> stateCode option \<Rightarrow> string option \<Rightarrow> event list
   \<Rightarrow> rawEntity list \<times> event list" where
  "searchSamLocalDb db name state domain tr =
     (let normalizedName = normalizeCompanyName name;
          tr1 = tr @ [Rpc normalizedName (stateOrNull state) (orNull domain)]
      in case rpc_search_sam_entities db normalizedName (stateOrNull state) (orNull domain) of
           DbThrows \<Rightarrow> ([], tr1)
         | DbError \<Rightarrow>
             (case searchSamLocalDbBasic db normalizedName state domain tr1 of
                (Inl f, tr2) \<Rightarrow> ([], tr2)
              | (Inr results, tr2) \<Rightarrow> (results, tr2))
         | DbData d \<Rightarrow>
             (case d of
                None \<Rightarrow> ([], tr1)
              | Some rows \<Rightarrow> if length rows = 0 then ([], tr1) else (map rowToEntity rows, tr1)))"

definition STATE_ABBREVIATIONS :: "(string \<times> string) list" where
  "STATE_ABBREVIATIONS =
     [(''alabama'', ''AL''), (''alaska'', ''AK''), (''arizona'', ''AZ''), (''arkansas'', ''AR''),
      (''california'', ''CA''), (''colorado'', ''CO''), (''connecticut'', ''CT''),
      (''delaware'', ''DE''), (''florida'', ''FL''), (''georgia'', ''GA''), (''hawaii'', ''HI''),
      (''idaho'', ''ID''), (''illinois'', ''IL''), (''indiana'', ''IN''), (''iowa'', ''IA''),
      (''kansas'', ''KS''), (''kentucky'', ''KY''), (''louisiana'', ''LA''), (''maine'', ''ME''),
      (''maryland'', ''MD''), (''massachusetts'', ''MA''), (''michigan'', ''MI''),
      (''minnesota'', ''MN''), (''mississippi'', ''MS''), (''missouri'', ''MO''),
      (''montana'', ''MT''), (''nebraska'', ''NE''), (''nevada'', ''NV''),
      (''new hampshire'', ''NH''), (''new jersey'', ''NJ''), (''new mexico'', ''NM''),
      (''new york'', ''NY''), (''north carolina'', ''NC''), (''north dakota'', ''ND''),
      (''ohio'', ''OH''), (''oklahoma'', ''OK''), (''oregon'', ''OR''), (''pennsylvania'', ''PA''),
      (''rhode island'', ''RI''), (''south carolina'', ''SC''), (''south dakota'', ''SD''),
      (''tennessee'', ''TN''), (''texas'', ''TX''), (''utah'', ''UT''), (''vermont'', ''VT''),
      (''virginia'', ''VA''), (''washington'', ''WA''), (''west virginia'', ''WV''),
      (''wisconsin'', ''WI''), (''wyoming'', ''WY''), (''district of columbia'', ''DC''),
      (''puerto rico'', ''PR''), (''guam'', ''GU''), (''virgin islands'', ''VI''),
      (''american samoa'', ''AS''), (''northern mariana islands'', ''MP'')]"

text \<open>
  \<^verbatim>\<open>toUpperCase()\<close> on code units below 256: a to z, and 224 to 254 except the division
  sign 247, move down by 32; the sharp s (223) becomes "SS". The capitals of the micro
  sign (181) and of the y with diaeresis (255) are the code units 924 and 376, which no
  string of the model can hold; the model leaves these two characters as they are, and so
  departs from the source on a two-character state that contains one of them. Nothing
  below depends on the text of such a state.
\<close>

definition toUpperChar :: "char \<Rightarrow> string" where
  "toUpperChar c =
     (let n = (of_char c :: nat)
      in if (97 \<le> n \<and> n \<le> 122) \<or> (224 \<le> n \<and> n \<le> 254 \<and> n \<noteq> 247)
         then [char_of (n - 32)]
         else if n = 223 then ''SS'' else [c])"

definition toUpperCase :: "string \<Rightarrow> string" where
  "toUpperCase s = concat (map toUpperChar s)"

text \<open>
  \<^verbatim>\<open>STATE_ABBREVIATIONS[key]\<close> for a lower-cased key: the abbreviation of a listed name,
  an inherited member, or \<^verbatim>\<open>undefined\<close>.
\<close>

definition lookupAbbreviation :: "string \<Rightarrow> stateCode option" where
  "lookupAbbreviation key =
     (case map_of STATE_ABBREVIATIONS key of
        Some abbrev \<Rightarrow> Some (Code abbrev)
      | None \<Rightarrow>
          if key = ''constructor'' then Some ObjectConstructor
          else if key = ''__proto__'' then Some ObjectPrototype
          else None)"

definition normalizeStateCode :: "string option \<Rightarrow> stateCode option" where
  "normalizeStateCode state =
     (case state of
        None \<Rightarrow> None
      | Some st \<Rightarrow>
          if st = [] then None
          else let trimmed = trim st
               in if length trimmed = 2 then Some (Code (toUpperCase trimmed))
                  else (case lookupAbbreviation (toLowerCase trimmed) of
                          Some abbrev \<Rightarrow> Some abbrev
                        | None \<Rightarrow> Some (Code trimmed)))"

record cacheEntry =
  cache_data :: "rawEntity list"
  cache_timestamp :: int

definition CACHE_TTL :: int where
  "CACHE_TTL = 5 * 60 * 1000"

text \<open>
  The constants of the environment (\<^verbatim>\<open>USE_LOCAL_SAM_DB\<close>, \<^verbatim>\<open>SAM_GOV_API_KEY\<close>) and the two
  outside services.
\<close>

record env =
  USE_LOCAL_DB :: bool
  SAM_API_KEY :: string
  registry :: backend
  localDatabase :: localDb

definition cacheKey :: "string \<Rightarrow> stateCode option \<Rightarrow> string option \<Rightarrow> string" where
  "cacheKey normalizedName normalizedState domain =
     normalizedName @ ''|'' @ orElse (stateParam normalizedState) '''' @ ''|'' @ orElse domain ''''"

text \<open>
  \<^verbatim>\<open>searchSamByName\<close>. The state is the cache and the trace; \<open>tLookup\<close> and \<open>tStore\<close> are
  the readings of \<^verbatim>\<open>Date.now()\<close> at the cache test and at the cache write. The registry
  request and the cache key take the text of the state code; the local table is called
  with the value.
\<close>

definition searchSamByName ::
  "env \<Rightarrow> string \<Rightarrow> string option \<Rightarrow> string option \<Rightarrow> int \<Rightarrow> int
   \<Rightarrow> (string \<rightharpoonup> cacheEntry) \<times> event list
   \<Rightarrow> (failure + rawEntity list) \<times> (string \<rightharpoonup> cacheEntry) \<times> event list" where
  "searchSamByName e name state domain tLookup tStore st =
     (let (searchCache, tr) = st;
          normalizedName = normalizeCompanyName name;
          normalizedState = normalizeStateCode state;
          key = cacheKey normalizedName normalizedState domain;
          fresh = (case searchCache key of
                     None \<Rightarrow> None
                   | Some cached \<Rightarrow>
                       if tLookup - cache_timestamp cached < CACHE_TTL then Some (cache_data cached)
                       else None)
      in case fresh of
           Some cachedData \<Rightarrow> (Inr cachedData, searchCache, tr)
         | None \<Rightarrow>
             (let (results, tr') =
                    (if USE_LOCAL_DB e then
                       (let (localResults, tr1) =
                              searchSamLocalDb (localDatabase e) name normalizedState domain tr
                        in if length localResults = 0 \<and> SAM_API_KEY e \<noteq> []
                           then searchSamApi (SAM_API_KEY e) (registry e) name
                                  (stateParam normalizedState) domain tr1
                           else (Inr localResults, tr1))
                     else searchSamApi (SAM_API_KEY e) (registry e) name
                            (stateParam normalizedState) domain tr)
              in case results of
                   Inl f \<Rightarrow> (Inl f, searchCache, tr')
                 | Inr found \<Rightarrow>
                     (Inr found,
                      searchCache(key \<mapsto> \<lparr> cache_data = found, cache_timestamp = tStore \<rparr>),
                      tr')))"

section \<open>\<^verbatim>\<open>processCompanyCreation\<close>\<close>

text \<open>
  The company's properties come from the CRM (\<^verbatim>\<open>getCompanyFromHubSpot\<close>, which can throw);
  they are an input here.
\<close>

record companyProps =
  prop_name :: "string option"
  prop_state :: "string option"
  prop_domain :: "string option"

definition processCompanyCreation ::
  "env \<Rightarrow> failure + companyProps \<Rightarrow> int \<Rightarrow> int
   \<Rightarrow> (string \<rightharpoonup> cacheEntry) \<times> event list
   \<Rightarrow> outcome \<times> (string \<rightharpoonup> cacheEntry) \<times> event list" where
  "processCompanyCreation e company tLookup tStore st =
     (case company of
        Inl f \<Rightarrow> (ProcessingError, st)
      | Inr companyProps \<Rightarrow>
          (case prop_name companyProps of
             None \<Rightarrow> (Skipped, st)
           | Some companyName \<Rightarrow>
               if companyName = [] then (Skipped, st)
               else (case searchSamByName e companyName (prop_state companyProps)
                            (prop_domain companyProps) tLookup tStore st of
                       (Inl f, st') \<Rightarrow> (ProcessingError, st')
                     | (Inr samEntities, st') \<Rightarrow>
                         (classify companyName (prop_state companyProps) samEntities, st'))))"

text \<open>The requests and queries in a trace: everything but the delays.\<close>

fun backendQueries :: "event list \<Rightarrow> event list" where
  "backendQueries [] = []"
| "backendQueries (Delay ms # evs) = backendQueries evs"
| "backendQueries (ev # evs) = ev # backendQueries evs"

section \<open>Request deduplicator\<close>



section \<open>Example data\<close>

text \<open>
  An entity with an identifier, a legal name and an active registration, the same with
  a state, one without a legal name, and the first two scored; they serve in the worked
  examples.
\<close>

definition exampleEntity :: "string \<Rightarrow> string \<Rightarrow> rawEntity" where
  "exampleEntity u legal = \<lparr> reg_ueiSAM = Some u, reg_legalBusinessName = Some legal, reg_dbaName = None,
     reg_cageCode = None, reg_registrationStatus = Some ''A'', reg_registrationExpirationDate = None,
     addr_stateOrProvinceCode = None, top_ueiSAM = None, top_legalBusinessName = None \<rparr>"



definition scoredExample :: "string \<Rightarrow> string \<Rightarrow> rat \<Rightarrow> scoredMatch" where
  "scoredExample u legal s =
     \<lparr> entity = normalizeSamEntity (exampleEntity u legal), raw = exampleEntity u legal, score = s \<rparr>"


text \<open>
  Two registries: one that knows a single company in California, and one that is rate
  limited on the first request of a trace and unavailable afterwards. A local table
  without rows, an environment that goes to the registry directly, and a company that
  has only a name.
\<close>

definition exampleRegistry :: backend where
  "exampleRegistry tr ps =
     (if map_of ps ''physicalAddressStateCode'' = Some ''CA''
      then Reply 200 (Json (Some [exampleEntity ''U7'' ''Acme Company'']))
      else Reply 200 (Json (Some [])))"

definition failingRegistry :: backend where
  "failingRegistry tr ps = (if tr = [] then Reply 429 NotJson else Reply 503 NotJson)"

definition emptyDb :: localDb where
  "emptyDb = \<lparr> rpc_search_sam_entities = (\<lambda>n s d. DbData (Some [])),
               select_sam_entities_local = (\<lambda>n s. DbData (Some [])) \<rparr>"

definition exampleEnv :: env where
  "exampleEnv = \<lparr> USE_LOCAL_DB = False, SAM_API_KEY = ''key'', registry = exampleRegistry,
                  localDatabase = emptyDb \<rparr>"

definition companyNamed :: "string \<Rightarrow> companyProps" where
  "companyNamed n = \<lparr> prop_name = Some n, prop_state = None, prop_domain = None \<rparr>"


section \<open>Properties of the similarity scorer\<close>

text \<open>Both loops of \<^const>\<open>diceCoefficient\<close> are folds over the list of bigrams.\<close>

lemma collectBigrams_fold:
  "collectBigrams s = fold (\<lambda>x S. setAdd x S) (bigramsOf s) []"
  by (simp add: collectBigrams_def bigramsOf_def fold_map comp_def)

lemma set_fold_setAdd: "set (fold (\<lambda>x S. setAdd x S) xs S0) = set S0 \<union> set xs"
  by (induction xs arbitrary: S0) (auto simp: setAdd_def)

lemma set_collectBigrams: "set (collectBigrams s) = set (bigramsOf s)"
  by (simp add: collectBigrams_fold set_fold_setAdd)

lemma countMatches_fold:
  "countMatches s2 S =
     fold (\<lambda>bigram (matches, bigrams1).
             if setHas bigram bigrams1 then (matches + 1, setDelete bigram bigrams1)
             else (matches, bigrams1))
          (bigramsOf s2) (0, S)"
  by (simp add: countMatches_def bigramsOf_def fold_map comp_def Let_def)

text \<open>
  The counter ends at the number of distinct bigrams that the set and the scanned string
  share: a bigram is counted when it is found and is deleted at once, so a second
  occurrence finds nothing.
\<close>

lemma fst_fold_matches:
  "fst (fold (\<lambda>bigram (matches, bigrams1).
               if setHas bigram bigrams1 then (matches + 1, setDelete bigram bigrams1)
               else (matches, bigrams1)) ys (m, S))
   = m + card (set S \<inter> set ys)"
proof (induction ys arbitrary: m S)
  case Nil
  then show ?case by simp
next
  case (Cons y ys)
  show ?case
  proof (cases "y \<in> set S")
    case True
    have "set S \<inter> set (y # ys) = insert y ((set S - {y}) \<inter> set ys)"
      using True by auto
    moreover have "y \<notin> (set S - {y}) \<inter> set ys" by simp
    ultimately have "card (set S \<inter> set (y # ys)) = Suc (card ((set S - {y}) \<inter> set ys))"
      by simp
    with True Cons.IH[of "m + 1" "removeAll y S"] show ?thesis
      by (simp add: setHas_def setDelete_def)
  next
    case False
    then have "set S \<inter> set (y # ys) = set S \<inter> set ys" by auto
    with False Cons.IH[of m S] show ?thesis
      by (simp add: setHas_def)
  qed
qed

lemma fst_countMatches:
  "fst (countMatches s2 S) = card (set S \<inter> set (bigramsOf s2))"
  by (simp add: countMatches_fold fst_fold_matches)

lemma diceCoefficient_card:
  "diceCoefficient a b =
     (let s1 = foldAlnum a; s2 = foldAlnum b
      in if s1 = s2 then 1
         else if length s1 < 2 \<or> length s2 < 2 then 0
         else of_nat (2 * card (set (bigramsOf s1) \<inter> set (bigramsOf s2)))
                / of_nat (length s1 + length s2 - 2))"
  by (simp add: diceCoefficient_def Let_def fst_countMatches set_collectBigrams)

text \<open>
  C2. For the subject name "Honeywell" and a candidate with the legal name "Honeywell
  International Inc", no alternate name and no state hint, the Dice quotient of the
  normalized names is 16/29, the combined score of the candidate is the double nearest to
  that number (no bonus), and it is at least the auto-link threshold, the double nearest
  to 0.55; the exact quotient is at least 0.55 too.
\<close>

theorem honeywell_reaches_auto_link:
  "diceCoefficient (normalizeCompanyName ''Honeywell'')
                   (normalizeCompanyName ''Honeywell International Inc'') = 16 / 29
   \<and> scoreEntity ''Honeywell'' None (exampleEntity ''U2'' ''Honeywell International Inc'')
       = Inr (scoredExample ''U2'' ''Honeywell International Inc'' (toDouble (16 / 29)))
   \<and> toDouble (11 / 20) \<le> toDouble (16 / 29)
   \<and> (11 / 20 :: rat) \<le> 16 / 29"
proof -
  have a: "diceCoefficient (normalizeCompanyName ''Honeywell'')
          (normalizeCompanyName ''Honeywell International Inc'') = 16 / 29"
    by code_simp
  have b: "scoreEntity ''Honeywell'' None
        (exampleEntity ''U2'' ''Honeywell International Inc'')
       = Inr (scoredExample ''U2'' ''Honeywell International Inc'' (toDouble (16 / 29)))"
    by code_simp
  have c: "toDouble (11 / 20) \<le> toDouble (16 / 29)"
    by code_simp
  have d: "(11 / 20 :: rat) \<le> 16 / 29" by simp
  from a b c d show ?thesis by (intro conjI)
qed

text \<open>
  C3, as the code has it. For strings whose folded forms differ and have at least two
  characters each, the score is twice the number of distinct bigrams that occur in both
  folded strings, over \<open>len a + len b - 2\<close>. The first string's bigrams are kept in a
  set, so a bigram that occurs several times in both strings counts once.
\<close>

theorem diceCoefficient_distinct_bigrams:
  assumes "foldAlnum a \<noteq> foldAlnum b"
    and "2 \<le> length (foldAlnum a)" and "2 \<le> length (foldAlnum b)"
  shows "diceCoefficient a b =
     of_nat (2 * card (set (bigramsOf (foldAlnum a)) \<inter> set (bigramsOf (foldAlnum b))))
       / of_nat (length (foldAlnum a) + length (foldAlnum b) - 2)"
  using assms by (simp add: diceCoefficient_card Let_def)

theorem diceCoefficient_distinct_bigrams_witness:
  "foldAlnum ''Acme'' \<noteq> foldAlnum ''Acme Co'' \<and> 2 \<le> length (foldAlnum ''Acme'')
   \<and> 2 \<le> length (foldAlnum ''Acme Co'')
   \<and> diceCoefficient ''Acme'' ''Acme Co'' =
       of_nat (2 * card (set (bigramsOf (foldAlnum ''Acme'')) \<inter> set (bigramsOf (foldAlnum ''Acme Co''))))
         / of_nat (length (foldAlnum ''Acme'') + length (foldAlnum ''Acme Co'') - 2)"
proof -
  have f1: "foldAlnum ''Acme'' = ''acme''" by code_simp
  have f2: "foldAlnum ''Acme Co'' = ''acmeco''" by code_simp
  have h1: "foldAlnum ''Acme'' \<noteq> foldAlnum ''Acme Co''" by (simp add: f1 f2)
  have h2: "2 \<le> length (foldAlnum ''Acme'')" by (simp add: f1)
  have h3: "2 \<le> length (foldAlnum ''Acme Co'')" by (simp add: f2)
  from diceCoefficient_distinct_bigrams[OF h1 h2 h3] h1 h2 h3 show ?thesis by blast
qed

text \<open>
  C3, as the specification states it, fails: "aaa" and "aaaa" have the bigram multisets
  {aa, aa} and {aa, aa, aa}, whose intersection has size 2, so the stated formula gives
  4/5; the code counts the one distinct bigram once and returns 2/5.
\<close>

theorem diceCoefficient_multiset_counterexample:
  "foldAlnum ''aaa'' \<noteq> foldAlnum ''aaaa'' \<and> 2 \<le> length (foldAlnum ''aaa'')
   \<and> 2 \<le> length (foldAlnum ''aaaa'')
   \<and> diceCoefficient ''aaa'' ''aaaa'' = 2 / 5
   \<and> multisetDice ''aaa'' ''aaaa'' = 4 / 5
   \<and> diceCoefficient ''aaa'' ''aaaa'' \<noteq> multisetDice ''aaa'' ''aaaa''"
proof -
  have f1: "foldAlnum ''aaa'' = ''aaa''" by code_simp
  have f2: "foldAlnum ''aaaa'' = ''aaaa''" by code_simp
  have d: "diceCoefficient ''aaa'' ''aaaa'' = 2 / 5" by code_simp
  have m: "multisetDice ''aaa'' ''aaaa'' = 4 / 5"
    by (simp add: multisetDice_def f1 f2 bigramsOf_def substring_def upt_rec)
  show ?thesis by (simp add: f1 f2 d m)
qed

text \<open>
  C4. The scorer is symmetric: the number of matches is the size of the intersection of
  the two sets of bigrams, whichever string fills the set and whichever is scanned.
\<close>

theorem diceCoefficient_symmetric: "diceCoefficient a b = diceCoefficient b a"
proof -
  have "card (set (bigramsOf (foldAlnum a)) \<inter> set (bigramsOf (foldAlnum b)))
      = card (set (bigramsOf (foldAlnum b)) \<inter> set (bigramsOf (foldAlnum a)))"
    by (simp add: Int_commute)
  then show ?thesis
    by (auto simp add: diceCoefficient_card Let_def add.commute)
qed

section \<open>Properties of the name normalizer\<close>

lemma space_not_word: "isSpaceChar c \<Longrightarrow> \<not> isWordChar c"
  by (auto simp: isSpaceChar_def isWordChar_def isDigitChar_def isUpperAZ_def isLowerAZ_def)

lemma space_lower: "isSpaceChar c \<Longrightarrow> toLowerChar c = c"
  by (auto simp: isSpaceChar_def toLowerChar_def)

lemma space_not_dot: "isSpaceChar c \<Longrightarrow> c \<noteq> CHR ''.''"
  by (auto simp: isSpaceChar_def)

lemma lowerWord_word: "isLowerWord c \<Longrightarrow> isWordChar c"
  by (auto simp: isLowerWord_def isWordChar_def)

lemma lowerWord_lower: "isLowerWord c \<Longrightarrow> toLowerChar c = c"
  by (auto simp: isLowerWord_def toLowerChar_def isDigitChar_def isLowerAZ_def Let_def)

lemma lowerWord_not_space: "isLowerWord c \<Longrightarrow> \<not> isSpaceChar c"
  using space_not_word lowerWord_word by blast

lemma word_toLower: "isWordChar c \<Longrightarrow> isLowerWord (toLowerChar c)"
  by (auto simp: isLowerWord_def isWordChar_def toLowerChar_def isDigitChar_def isLowerAZ_def isUpperAZ_def Let_def)

lemma lowerAZ_lowerWord: "isLowerAZ c \<Longrightarrow> isLowerWord c"
  by (simp add: isLowerWord_def)

lemma suffixWords_lower: "w \<in> set suffixWords \<Longrightarrow> c \<in> set w \<Longrightarrow> isLowerAZ c"
  by (auto simp: suffixWords_def isLowerAZ_def)

lemma toLower_space_iff: "isSpaceChar (toLowerChar c) = isSpaceChar c"
  by (auto simp: isSpaceChar_def toLowerChar_def Let_def)

lemma matchAlternatives_nonletter:
  "\<forall>w\<in>set ws. w \<noteq> [] \<and> isLowerAZ (hd w) \<Longrightarrow> \<not> isLowerAZ (toLowerChar c)
   \<Longrightarrow> matchAlternatives ws (c # cs) = None"
proof (induction ws)
  case Nil
  then show ?case by simp
next
  case (Cons w ws)
  then obtain a as where w: "w = a # as" and a: "isLowerAZ a" by (cases w) auto
  from a Cons.prems(2) have "toLowerChar c \<noteq> a" by auto
  with w have "map toLowerChar (take (length w) (c # cs)) \<noteq> w" by simp
  with Cons show ?case by simp
qed

lemma suffixWords_heads: "\<forall>w\<in>set suffixWords. w \<noteq> [] \<and> isLowerAZ (hd w)"
  by (simp add: suffixWords_def isLowerAZ_def)

lemma space_not_lowerAZ: "isSpaceChar c \<Longrightarrow> \<not> isLowerAZ (toLowerChar c)"
  by (auto simp: isSpaceChar_def toLowerChar_def isLowerAZ_def)

lemma matchSuffixAt_space: "isSpaceChar c \<Longrightarrow> matchSuffixAt p (c # cs) = None"
  by (simp add: matchSuffixAt_def matchAlternatives_nonletter[OF suffixWords_heads space_not_lowerAZ])

lemma removeSuffixes_space:
  "isSpaceChar c \<Longrightarrow> removeSuffixes p (c # cs) = c # removeSuffixes False cs"
  by (simp add: matchSuffixAt_space space_not_word)

lemma removeSuffixes_inside_word:
  "\<forall>c\<in>set u. isWordChar c \<Longrightarrow> removeSuffixes True (u @ r) = u @ removeSuffixes True r"
proof (induction u)
  case Nil
  then show ?case by simp
next
  case (Cons x u)
  then have "matchSuffixAt True ((x # u) @ r) = None"
    by (simp add: matchSuffixAt_def wordBoundary_def)
  with Cons show ?case by simp
qed

lemma map_toLower_lowerWord: "\<forall>c\<in>set w. isLowerWord c \<Longrightarrow> map toLowerChar w = w"
  by (induction w) (auto simp: lowerWord_lower)

lemma alternative_matches_iff:
  assumes w: "\<forall>c\<in>set w. isLowerWord c"
    and r: "r = [] \<or> isSpaceChar (hd r)"
    and a: "\<forall>c\<in>set a. isLowerAZ c"
  shows "(length a \<le> length (w @ r) \<and> map toLowerChar (take (length a) (w @ r)) = a
          \<and> wordBoundary True (drop (length a) (w @ r))) \<longleftrightarrow> a = w"
proof
  assume "a = w"
  moreover have "wordBoundary True r"
    using r by (auto simp: wordBoundary_def space_not_word)
  ultimately show "length a \<le> length (w @ r) \<and> map toLowerChar (take (length a) (w @ r)) = a
          \<and> wordBoundary True (drop (length a) (w @ r))"
    using w by (simp add: map_toLower_lowerWord)
next
  assume c: "length a \<le> length (w @ r) \<and> map toLowerChar (take (length a) (w @ r)) = a
          \<and> wordBoundary True (drop (length a) (w @ r))"
  consider "length a < length w" | "length a = length w" | "length w < length a" by linarith
  then show "a = w"
  proof cases
    case 1
    then have ne: "drop (length a) w \<noteq> []" by simp
    then have "hd (drop (length a) w) \<in> set w"
      by (metis hd_in_set in_set_dropD)
    with w have "isWordChar (hd (drop (length a) w))" by (simp add: lowerWord_word)
    with ne have "\<not> wordBoundary True (drop (length a) (w @ r))"
      by (simp add: wordBoundary_def)
    with c show ?thesis by simp
  next
    case 2
    with c have "map toLowerChar w = a" by simp
    with w show ?thesis by (simp add: map_toLower_lowerWord)
  next
    case 3
    from c have len: "length a \<le> length (w @ r)" by blast
    from c have eq: "map toLowerChar (take (length a) (w @ r)) = a" by blast
    from 3 len have rne: "r \<noteq> []" by auto
    from 3 len have lt: "length w < length (take (length a) (w @ r))" by simp
    have "a ! length w = map toLowerChar (take (length a) (w @ r)) ! length w"
      using arg_cong[where f="\<lambda>x. x ! length w", OF eq] by simp
    also have "\<dots> = toLowerChar (take (length a) (w @ r) ! length w)"
      using lt by (rule nth_map)
    also have "\<dots> = toLowerChar ((w @ r) ! length w)"
      by (simp only: nth_take[OF 3])
    also have "\<dots> = toLowerChar (hd r)" using rne by (simp add: nth_append hd_conv_nth)
    finally have "a ! length w = toLowerChar (hd r)" .
    moreover have "a ! length w \<in> set a" using 3 by simp
    ultimately have "isLowerAZ (toLowerChar (hd r))" using a by auto
    moreover from r rne have "\<not> isLowerAZ (toLowerChar (hd r))" by (simp add: space_not_lowerAZ)
    ultimately show ?thesis by simp
  qed
qed

lemma matchAlternatives_token:
  assumes w: "\<forall>c\<in>set w. isLowerWord c"
    and r: "r = [] \<or> isSpaceChar (hd r)"
    and ws: "\<forall>a\<in>set ws. \<forall>c\<in>set a. isLowerAZ c"
  shows "matchAlternatives ws (w @ r) = (if w \<in> set ws then Some r else None)"
  using ws
proof (induction ws)
  case Nil
  then show ?case by simp
next
  case (Cons a ws)
  then have a: "\<forall>c\<in>set a. isLowerAZ c" by simp
  let ?C = "length a \<le> length (w @ r) \<and> map toLowerChar (take (length a) (w @ r)) = a
          \<and> wordBoundary True (drop (length a) (w @ r))"
  have iff: "?C \<longleftrightarrow> a = w" by (rule alternative_matches_iff[OF w r a])
  have step: "matchAlternatives (a # ws) (w @ r) =
      (if ?C then Some (drop (length a) (w @ r)) else matchAlternatives ws (w @ r))"
    by (simp only: matchAlternatives.simps)
  show ?case
  proof (cases "a = w")
    case True
    with iff have C: "?C" by blast
    have "matchAlternatives (a # ws) (w @ r) = Some (drop (length a) (w @ r))"
      by (subst step) (rule if_P, rule C)
    with True show ?thesis by simp
  next
    case False
    with iff have C: "\<not> ?C" by blast
    have "matchAlternatives (a # ws) (w @ r) = matchAlternatives ws (w @ r)"
      by (subst step) (rule if_not_P, rule C)
    with Cons False show ?thesis by auto
  qed
qed

lemma matchSuffixAt_token:
  assumes w: "w \<noteq> []" "\<forall>c\<in>set w. isLowerWord c"
    and r: "r = [] \<or> isSpaceChar (hd r)"
  shows "matchSuffixAt False (w @ r) = (if w \<in> set suffixWords then Some r else None)"
proof -
  have "wordBoundary False (w @ r)"
    using w by (cases w) (auto simp: wordBoundary_def lowerWord_word)
  moreover have "\<forall>a\<in>set suffixWords. \<forall>c\<in>set a. isLowerAZ c"
    using suffixWords_lower by blast
  ultimately show ?thesis
    using matchAlternatives_token[OF w(2) r] by (simp add: matchSuffixAt_def)
qed

lemma token_split:
  assumes "plainLower (c # cs)" "\<not> isSpaceChar c"
  defines "w \<equiv> c # takeWhile (\<lambda>d. \<not> isSpaceChar d) cs"
    and "r \<equiv> dropWhile (\<lambda>d. \<not> isSpaceChar d) cs"
  shows "c # cs = w @ r" and "w \<noteq> []" and "\<forall>x\<in>set w. isLowerWord x"
    and "r = [] \<or> isSpaceChar (hd r)" and "plainLower r" and "length r < length (c # cs)"
proof -
  show "c # cs = w @ r" by (simp add: w_def r_def)
  show "w \<noteq> []" by (simp add: w_def)
  have "isLowerWord x" if "x \<in> set (takeWhile (\<lambda>d. \<not> isSpaceChar d) cs)" for x
  proof -
    from that have "x \<in> set cs" "\<not> isSpaceChar x"
      by (auto dest: set_takeWhileD)
    with assms(1) show ?thesis by (auto simp: plainLower_def)
  qed
  moreover from assms(1,2) have "isLowerWord c" by (simp add: plainLower_def)
  ultimately show "\<forall>x\<in>set w. isLowerWord x" by (auto simp: w_def)
  show "r = [] \<or> isSpaceChar (hd r)"
    unfolding r_def using hd_dropWhile[of "\<lambda>d. \<not> isSpaceChar d" cs] by auto
  show "plainLower r"
    using assms(1) unfolding r_def plainLower_def by (auto dest: set_dropWhileD)
  show "length r < length (c # cs)"
    unfolding r_def by (simp add: less_Suc_eq_le length_dropWhile_le)
qed

lemma removeSuffixes_tokens:
  "plainLower s \<Longrightarrow> (p \<longrightarrow> s = [] \<or> isSpaceChar (hd s))
   \<Longrightarrow> removeSuffixes p s = dropSuffixTokens s"
proof (induction "length s" arbitrary: s p rule: less_induct)
  case less
  show ?case
  proof (cases s)
    case Nil
    then show ?thesis by simp
  next
    case (Cons c cs)
    show ?thesis
    proof (cases "isSpaceChar c")
      case True
      from less.prems(1) Cons have "plainLower cs" by (simp add: plainLower_def)
      with less.hyps[of cs False] Cons have "removeSuffixes False cs = dropSuffixTokens cs"
        by simp
      with True Cons removeSuffixes_space[OF True, of p cs] show ?thesis
        by (simp del: removeSuffixes.simps)
    next
      case False
      define w where "w = c # takeWhile (\<lambda>d. \<not> isSpaceChar d) cs"
      define r where "r = dropWhile (\<lambda>d. \<not> isSpaceChar d) cs"
      from less.prems(1) Cons have pl: "plainLower (c # cs)" by simp
      note ts = token_split[OF pl False, folded w_def r_def]
      from less.prems(2) Cons False have p: "p = False" by simp
      have m: "matchSuffixAt False (c # cs) = (if w \<in> set suffixWords then Some r else None)"
        using matchSuffixAt_token[OF ts(2) ts(3) ts(4)] ts(1) by simp
      have ih: "removeSuffixes True r = dropSuffixTokens r"
        using less.hyps[of r True] ts(5) ts(4) ts(6) Cons by simp
      have d: "dropSuffixTokens (c # cs) =
          (if w \<in> set suffixWords then dropSuffixTokens r else w @ dropSuffixTokens r)"
        using False by (simp add: w_def r_def Let_def)
      show ?thesis
      proof (cases "w \<in> set suffixWords")
        case True
        have "removeSuffixes False (c # cs) = dropSuffixTokens r"
        proof (cases r)
          case Nil
          with m True show ?thesis by simp
        next
          case (Cons x r')
          with ts(4) have "isSpaceChar x" by simp
          then have "x \<noteq> CHR ''.''" by (rule space_not_dot)
          with m True Cons have "removeSuffixes False (c # cs) = removeSuffixes True r"
            by simp
          with ih show ?thesis by simp
        qed
        with True d p Cons show ?thesis by (simp del: removeSuffixes.simps dropSuffixTokens.simps)
      next
        case nosuf: False
        from ts(3) have cw: "isWordChar c"
          by (simp add: w_def lowerWord_word)
        from ts(3) have tw: "\<forall>x\<in>set (takeWhile (\<lambda>d. \<not> isSpaceChar d) cs). isWordChar x"
          by (simp add: w_def lowerWord_word)
        have step1: "removeSuffixes False (c # cs) = c # removeSuffixes True cs"
          using m nosuf cw by simp
        have "removeSuffixes True cs
            = removeSuffixes True (takeWhile (\<lambda>d. \<not> isSpaceChar d) cs @ r)"
          by (simp add: r_def)
        also have "\<dots> = takeWhile (\<lambda>d. \<not> isSpaceChar d) cs @ removeSuffixes True r"
          using tw by (rule removeSuffixes_inside_word)
        finally have step2: "removeSuffixes True cs
            = takeWhile (\<lambda>d. \<not> isSpaceChar d) cs @ dropSuffixTokens r"
          using ih by simp
        from step1 step2 have "removeSuffixes False (c # cs) = w @ dropSuffixTokens r"
          by (simp add: w_def del: removeSuffixes.simps)
        with nosuf d p Cons show ?thesis by (simp del: removeSuffixes.simps dropSuffixTokens.simps)
      qed
    qed
  qed
qed

lemma tokens_word_append:
  assumes "w \<noteq> []" "\<forall>c\<in>set w. \<not> isSpaceChar c" "X = [] \<or> isSpaceChar (hd X)"
  shows "tokens (w @ X) = w # tokens X"
proof -
  from assms(1) obtain c u where w: "w = c # u" by (cases w) auto
  from assms(2) w have c: "\<not> isSpaceChar c" and u: "\<forall>x\<in>set u. \<not> isSpaceChar x" by auto
  from assms(3) have tx: "takeWhile (\<lambda>d. \<not> isSpaceChar d) X = []"
    and dx: "dropWhile (\<lambda>d. \<not> isSpaceChar d) X = X"
    by (cases X; auto)+
  from u have "takeWhile (\<lambda>d. \<not> isSpaceChar d) (u @ X) = u"
    using tx by (simp add: takeWhile_append2)
  moreover from u have "dropWhile (\<lambda>d. \<not> isSpaceChar d) (u @ X) = X"
    using dx by (simp add: dropWhile_append2)
  ultimately show ?thesis using c w by simp
qed

lemma dropSuffixTokens_starts_space:
  "r = [] \<or> isSpaceChar (hd r) \<Longrightarrow>
   dropSuffixTokens r = [] \<or> isSpaceChar (hd (dropSuffixTokens r))"
  by (cases r) auto

lemma tokens_dropSuffixTokens:
  "plainLower s \<Longrightarrow>
   tokens (dropSuffixTokens s) = filter (\<lambda>w. w \<notin> set suffixWords) (tokens s)"
proof (induction "length s" arbitrary: s rule: less_induct)
  case less
  show ?case
  proof (cases s)
    case Nil
    then show ?thesis by simp
  next
    case (Cons c cs)
    show ?thesis
    proof (cases "isSpaceChar c")
      case True
      from less.prems Cons have "plainLower cs" by (simp add: plainLower_def)
      with less.hyps[of cs] Cons True show ?thesis by simp
    next
      case False
      define w where "w = c # takeWhile (\<lambda>d. \<not> isSpaceChar d) cs"
      define r where "r = dropWhile (\<lambda>d. \<not> isSpaceChar d) cs"
      from less.prems Cons have pl: "plainLower (c # cs)" by simp
      note ts = token_split[OF pl False, folded w_def r_def]
      have ih: "tokens (dropSuffixTokens r) = filter (\<lambda>w. w \<notin> set suffixWords) (tokens r)"
        using less.hyps[of r] ts(5) ts(6) Cons by simp
      have d: "dropSuffixTokens (c # cs) =
          (if w \<in> set suffixWords then dropSuffixTokens r else w @ dropSuffixTokens r)"
        using False by (simp add: w_def r_def Let_def)
      have t: "tokens (c # cs) = w # tokens r"
        using False by (simp add: w_def r_def)
      have nsp: "\<forall>x\<in>set w. \<not> isSpaceChar x"
        using ts(3) lowerWord_not_space by blast
      have "tokens (w @ dropSuffixTokens r) = w # tokens (dropSuffixTokens r)"
        using ts(2) nsp dropSuffixTokens_starts_space[OF ts(4)] by (rule tokens_word_append)
      with d t ih Cons show ?thesis
        by (simp del: tokens.simps dropSuffixTokens.simps)
    qed
  qed
qed

lemma set_dropSuffixTokens: "set (dropSuffixTokens s) \<subseteq> set s"
proof (induction "length s" arbitrary: s rule: less_induct)
  case less
  show ?case
  proof (cases s)
    case Nil
    then show ?thesis by simp
  next
    case (Cons c cs)
    show ?thesis
    proof (cases "isSpaceChar c")
      case True
      with less.hyps[of cs] Cons show ?thesis by auto
    next
      case False
      define r where "r = dropWhile (\<lambda>d. \<not> isSpaceChar d) cs"
      have "length r < length s" using Cons
        by (simp add: r_def less_Suc_eq_le length_dropWhile_le)
      then have "set (dropSuffixTokens r) \<subseteq> set r" by (rule less.hyps)
      moreover have "set r \<subseteq> set cs" by (auto simp: r_def dest: set_dropWhileD)
      moreover have "set (takeWhile (\<lambda>d. \<not> isSpaceChar d) cs) \<subseteq> set cs"
        by (auto dest: set_takeWhileD)
      ultimately show ?thesis using False Cons
        by (auto simp: r_def Let_def)
    qed
  qed
qed

lemma stripPunctuation_plain: "plainLower s \<Longrightarrow> stripPunctuation s = s"
  by (auto simp: stripPunctuation_def plainLower_def lowerWord_word intro!: filter_True)

lemma plainLower_dropSuffixTokens: "plainLower s \<Longrightarrow> plainLower (dropSuffixTokens s)"
  using set_dropSuffixTokens[of s] by (auto simp: plainLower_def)

lemma trim_trimEnd: "trim s = trimEnd (dropWhile isSpaceChar s)"
  by (simp add: trim_def trimEnd_def)

lemma trimEnd_Nil: "trimEnd [] = []"
  by (simp add: trimEnd_def)

lemma trimEnd_empty_iff: "trimEnd Y = [] \<longleftrightarrow> (\<forall>y\<in>set Y. isSpaceChar y)"
  by (simp add: trimEnd_def dropWhile_eq_Nil_conv)

lemma trimEnd_Cons:
  "trimEnd (x # Y) = (if isSpaceChar x \<and> trimEnd Y = [] then [] else x # trimEnd Y)"
proof (cases "\<forall>y\<in>set Y. isSpaceChar y")
  case True
  then have "trimEnd Y = []" by (simp add: trimEnd_empty_iff)
  moreover from True have "dropWhile isSpaceChar (rev Y @ [x]) = dropWhile isSpaceChar [x]"
    by (simp add: dropWhile_append)
  ultimately show ?thesis by (simp add: trimEnd_def)
next
  case False
  then have ne: "trimEnd Y \<noteq> []" by (simp add: trimEnd_empty_iff)
  from False have "dropWhile isSpaceChar (rev Y @ [x]) = dropWhile isSpaceChar (rev Y) @ [x]"
    by (auto simp: dropWhile_append)
  with ne show ?thesis by (simp add: trimEnd_def)
qed

lemma trimEnd_word_append:
  "\<forall>c\<in>set u. \<not> isSpaceChar c \<Longrightarrow> trimEnd (u @ Y) = u @ trimEnd Y"
  by (induction u) (simp_all add: trimEnd_Cons)

lemma collapse_word_append:
  "\<forall>c\<in>set u. \<not> isSpaceChar c \<Longrightarrow> collapseWhitespace (u @ r) = u @ collapseWhitespace r"
  by (induction u) simp_all

lemma collapse_no_leading:
  "t = [] \<or> \<not> isSpaceChar (hd t) \<Longrightarrow>
   collapseWhitespace t = [] \<or> \<not> isSpaceChar (hd (collapseWhitespace t))"
  by (cases t) auto

lemma dropWhile_no_leading:
  "dropWhile isSpaceChar t = [] \<or> \<not> isSpaceChar (hd (dropWhile isSpaceChar t))"
  using hd_dropWhile[of isSpaceChar t] by blast

lemma dropWhile_id_no_leading:
  "t = [] \<or> \<not> isSpaceChar (hd t) \<Longrightarrow> dropWhile isSpaceChar t = t"
  by (cases t) auto

lemma space_is_space: "isSpaceChar (CHR '' '')"
  by (simp add: isSpaceChar_def)

lemma dropWhile_collapse:
  "dropWhile isSpaceChar (collapseWhitespace t) = collapseWhitespace (dropWhile isSpaceChar t)"
proof (cases t)
  case Nil
  then show ?thesis by simp
next
  case (Cons c cs)
  show ?thesis
  proof (cases "isSpaceChar c")
    case True
    have "dropWhile isSpaceChar (collapseWhitespace (dropWhile isSpaceChar cs))
        = collapseWhitespace (dropWhile isSpaceChar cs)"
      by (rule dropWhile_id_no_leading, rule collapse_no_leading, rule dropWhile_no_leading)
    with True Cons show ?thesis by (simp add: space_is_space)
  next
    case False
    with Cons show ?thesis by simp
  qed
qed

lemma tokens_dropWhile: "tokens (dropWhile isSpaceChar t) = tokens t"
  by (induction t) simp_all

lemma tokens_nonempty: "[] \<notin> set (tokens t)"
proof (induction "length t" arbitrary: t rule: less_induct)
  case less
  show ?case
  proof (cases t)
    case Nil
    then show ?thesis by simp
  next
    case (Cons c cs)
    have "length (dropWhile (\<lambda>d. \<not> isSpaceChar d) cs) < length t"
      using Cons by (simp add: less_Suc_eq_le length_dropWhile_le)
    then have "[] \<notin> set (tokens (dropWhile (\<lambda>d. \<not> isSpaceChar d) cs))" by (rule less.hyps)
    moreover have "[] \<notin> set (tokens cs)" using less.hyps[of cs] Cons by simp
    ultimately show ?thesis using Cons by simp
  qed
qed

lemma joinWords_Cons:
  "joinWords (w # ws) = (if ws = [] then w else w @ CHR '' '' # joinWords ws)"
  by (cases ws) simp_all

lemma joinWords_empty_iff: "[] \<notin> set ws \<Longrightarrow> joinWords ws = [] \<longleftrightarrow> ws = []"
  by (cases ws) (auto simp: joinWords_Cons)

lemma trimEnd_collapse:
  "trimEnd (collapseWhitespace t) =
     (if t \<noteq> [] \<and> isSpaceChar (hd t) \<and> tokens t \<noteq> []
      then CHR '' '' # joinWords (tokens t) else joinWords (tokens t))"
proof (induction "length t" arbitrary: t rule: less_induct)
  case less
  show ?case
  proof (cases t)
    case Nil
    then show ?thesis by (simp add: trimEnd_Nil)
  next
    case (Cons c cs)
    show ?thesis
    proof (cases "isSpaceChar c")
      case True
      define t' where "t' = dropWhile isSpaceChar cs"
      have len: "length t' < length t"
        using Cons by (simp add: t'_def less_Suc_eq_le length_dropWhile_le)
      have nl: "t' = [] \<or> \<not> isSpaceChar (hd t')"
        unfolding t'_def by (rule dropWhile_no_leading)
      have tk: "tokens t = tokens t'"
        using True Cons by (simp add: t'_def tokens_dropWhile)
      from less.hyps[OF len] nl
      have ih: "trimEnd (collapseWhitespace t') = joinWords (tokens t')" by auto
      have "collapseWhitespace t = CHR '' '' # collapseWhitespace t'"
        using True Cons by (simp add: t'_def)
      then have "trimEnd (collapseWhitespace t) =
          (if joinWords (tokens t') = [] then [] else CHR '' '' # joinWords (tokens t'))"
        by (simp add: trimEnd_Cons ih space_is_space)
      then show ?thesis
        using True Cons tk joinWords_empty_iff[OF tokens_nonempty, of t']
        by (auto simp del: tokens.simps)
    next
      case False
      define u where "u = takeWhile (\<lambda>d. \<not> isSpaceChar d) cs"
      define r where "r = dropWhile (\<lambda>d. \<not> isSpaceChar d) cs"
      have len: "length r < length t"
        using Cons by (simp add: r_def less_Suc_eq_le length_dropWhile_le)
      have t: "t = (c # u) @ r" using Cons by (simp add: u_def r_def)
      have nsp: "\<forall>x\<in>set (c # u). \<not> isSpaceChar x"
        using False by (auto simp: u_def dest: set_takeWhileD)
      have r: "r = [] \<or> isSpaceChar (hd r)"
        unfolding r_def using hd_dropWhile[of "\<lambda>d. \<not> isSpaceChar d" cs] by auto
      have tk: "tokens t = (c # u) # tokens r"
        using False Cons by (simp add: u_def r_def)
      have "collapseWhitespace t = (c # u) @ collapseWhitespace r"
        unfolding t using nsp by (rule collapse_word_append)
      then have "trimEnd (collapseWhitespace t) = (c # u) @ trimEnd (collapseWhitespace r)"
        using trimEnd_word_append[OF nsp] by simp
      also have "trimEnd (collapseWhitespace r) =
         (if tokens r = [] then [] else CHR '' '' # joinWords (tokens r))"
      proof (cases "tokens r = []")
        case True
        with less.hyps[OF len] show ?thesis by simp
      next
        case ne: False
        then have "r \<noteq> []" by auto
        with r ne less.hyps[OF len] show ?thesis by simp
      qed
      finally show ?thesis
        using False Cons tk by (simp add: joinWords_Cons del: tokens.simps)
    qed
  qed
qed

lemma trim_collapse_tokens: "trim (collapseWhitespace t) = joinWords (tokens t)"
proof -
  have nl: "dropWhile isSpaceChar t = [] \<or> \<not> isSpaceChar (hd (dropWhile isSpaceChar t))"
    by (rule dropWhile_no_leading)
  have "trim (collapseWhitespace t) = trimEnd (collapseWhitespace (dropWhile isSpaceChar t))"
    by (simp add: trim_trimEnd dropWhile_collapse)
  also have "\<dots> = joinWords (tokens (dropWhile isSpaceChar t))"
    using nl by (auto simp: trimEnd_collapse)
  finally show ?thesis by (simp add: tokens_dropWhile)
qed

lemma normalize_plainLower:
  assumes "plainLower s"
  shows "trim (collapseWhitespace (stripPunctuation (removeSuffixes False s)))
         = joinWords (filter (\<lambda>w. w \<notin> set suffixWords) (tokens s))"
proof -
  have "removeSuffixes False s = dropSuffixTokens s"
    using assms by (simp add: removeSuffixes_tokens)
  moreover have "stripPunctuation (dropSuffixTokens s) = dropSuffixTokens s"
    using assms by (simp add: stripPunctuation_plain plainLower_dropSuffixTokens)
  ultimately show ?thesis
    using assms by (simp add: trim_collapse_tokens tokens_dropSuffixTokens)
qed

lemma tokens_joinWords:
  "\<forall>w\<in>set ws. w \<noteq> [] \<and> (\<forall>c\<in>set w. \<not> isSpaceChar c) \<Longrightarrow> tokens (joinWords ws) = ws"
proof (induction ws rule: joinWords.induct)
  case 1
  then show ?case by simp
next
  case (2 w)
  then have "tokens (w @ []) = w # tokens []"
    by (intro tokens_word_append) auto
  then show ?case by simp
next
  case (3 w v ws)
  then have ih: "tokens (joinWords (v # ws)) = v # ws" by simp
  from 3 have "tokens (w @ CHR '' '' # joinWords (v # ws))
      = w # tokens (CHR '' '' # joinWords (v # ws))"
    by (intro tokens_word_append) (auto simp: space_is_space)
  with ih show ?case by (simp add: space_is_space del: joinWords.simps(3)) (simp)
qed

lemma set_joinWords: "set (joinWords ws) \<subseteq> insert (CHR '' '') (\<Union>(set ` set ws))"
  by (induction ws rule: joinWords.induct) auto

lemma plainLower_joinWords:
  "\<forall>w\<in>set ws. \<forall>c\<in>set w. isLowerWord c \<Longrightarrow> plainLower (joinWords ws)"
  using set_joinWords[of ws] by (auto simp: plainLower_def space_is_space)

lemma tokens_chars: "w \<in> set (tokens t) \<Longrightarrow> c \<in> set w \<Longrightarrow> c \<in> set t \<and> \<not> isSpaceChar c"
proof (induction "length t" arbitrary: t rule: less_induct)
  case less
  show ?case
  proof (cases t)
    case Nil
    with less.prems show ?thesis by simp
  next
    case (Cons x xs)
    show ?thesis
    proof (cases "isSpaceChar x")
      case True
      with less.prems Cons have "w \<in> set (tokens xs)" by simp
      with less.hyps[of xs] less.prems(2) Cons show ?thesis by simp
    next
      case False
      define r where "r = dropWhile (\<lambda>d. \<not> isSpaceChar d) xs"
      have len: "length r < length t"
        using Cons by (simp add: r_def less_Suc_eq_le length_dropWhile_le)
      from less.prems(1) Cons False
      consider "w = x # takeWhile (\<lambda>d. \<not> isSpaceChar d) xs" | "w \<in> set (tokens r)"
        by (auto simp: r_def)
      then show ?thesis
      proof cases
        case 1
        with less.prems(2) False Cons show ?thesis by (auto dest: set_takeWhileD)
      next
        case 2
        from less.hyps[OF len 2 less.prems(2)] have "c \<in> set r" "\<not> isSpaceChar c" by auto
        then show ?thesis using Cons by (auto simp: r_def dest: set_dropWhileD)
      qed
    qed
  qed
qed

lemma tokens_plainLower:
  assumes "plainLower t" "w \<in> set (tokens t)"
  shows "w \<noteq> []" and "\<forall>c\<in>set w. isLowerWord c" and "\<forall>c\<in>set w. \<not> isSpaceChar c"
proof -
  from assms(2) tokens_nonempty[of t] show "w \<noteq> []" by auto
  show "\<forall>c\<in>set w. isLowerWord c"
    using tokens_chars[OF assms(2)] assms(1) by (auto simp: plainLower_def)
  show "\<forall>c\<in>set w. \<not> isSpaceChar c"
    using tokens_chars[OF assms(2)] by auto
qed

lemma plainLower_toLowerCase:
  "\<forall>c\<in>set x. isWordChar c \<or> isSpaceChar c \<Longrightarrow> plainLower (toLowerCase x)"
  by (auto simp: plainLower_def toLowerCase_def word_toLower toLower_space_iff)

lemma toLowerCase_plainLower: "plainLower y \<Longrightarrow> toLowerCase y = y"
  by (auto simp: plainLower_def toLowerCase_def space_lower lowerWord_lower intro!: map_idI)

lemma normalize_tokens:
  assumes "\<forall>c\<in>set x. isWordChar c \<or> isSpaceChar c"
  shows "normalizeCompanyName x
         = joinWords (filter (\<lambda>w. w \<notin> set suffixWords) (tokens (toLowerCase x)))"
  unfolding normalizeCompanyName_def
  using normalize_plainLower[OF plainLower_toLowerCase[OF assms]] .

lemma normalize_idem_plain:
  assumes "\<forall>c\<in>set x. isWordChar c \<or> isSpaceChar c"
  shows "normalizeCompanyName (normalizeCompanyName x) = normalizeCompanyName x"
proof -
  define ws where "ws = filter (\<lambda>w. w \<notin> set suffixWords) (tokens (toLowerCase x))"
  have pl: "plainLower (toLowerCase x)" using assms by (rule plainLower_toLowerCase)
  have n1: "normalizeCompanyName x = joinWords ws"
    unfolding ws_def using assms by (rule normalize_tokens)
  have wf: "\<forall>w\<in>set ws. w \<noteq> [] \<and> (\<forall>c\<in>set w. \<not> isSpaceChar c)"
    and lw: "\<forall>w\<in>set ws. \<forall>c\<in>set w. isLowerWord c"
    using tokens_plainLower[OF pl] by (auto simp: ws_def)
  have pj: "plainLower (joinWords ws)" using lw by (rule plainLower_joinWords)
  then have wc: "\<forall>c\<in>set (joinWords ws). isWordChar c \<or> isSpaceChar c"
    by (auto simp: plainLower_def lowerWord_word)
  have "normalizeCompanyName (joinWords ws)
      = joinWords (filter (\<lambda>w. w \<notin> set suffixWords) (tokens (toLowerCase (joinWords ws))))"
    using wc by (rule normalize_tokens)
  also have "toLowerCase (joinWords ws) = joinWords ws" using pj by (rule toLowerCase_plainLower)
  also have "tokens (joinWords ws) = ws" using wf by (rule tokens_joinWords)
  also have "filter (\<lambda>w. w \<notin> set suffixWords) ws = ws" by (simp add: ws_def)
  finally show ?thesis by (simp add: n1)
qed

lemma toLowerCase_joinWords: "toLowerCase (joinWords ws) = joinWords (map toLowerCase ws)"
  by (induction ws rule: joinWords.induct)
     (simp_all add: toLowerCase_def space_lower[OF space_is_space])

lemma normalize_joinWords:
  assumes "\<forall>w\<in>set ws. w \<noteq> [] \<and> (\<forall>c\<in>set w. isWordChar c)"
  shows "normalizeCompanyName (joinWords ws)
         = joinWords (filter (\<lambda>w. w \<notin> set suffixWords) (map toLowerCase ws))"
proof -
  have "set (joinWords ws) \<subseteq> insert (CHR '' '') (\<Union>(set ` set ws))" by (rule set_joinWords)
  with assms have wc: "\<forall>c\<in>set (joinWords ws). isWordChar c \<or> isSpaceChar c"
    by (auto simp: space_is_space)
  have "\<forall>w\<in>set (map toLowerCase ws). w \<noteq> [] \<and> (\<forall>c\<in>set w. \<not> isSpaceChar c)"
    using assms by (auto simp: toLowerCase_def dest!: word_toLower lowerWord_not_space)
  then have "tokens (joinWords (map toLowerCase ws)) = map toLowerCase ws"
    by (rule tokens_joinWords)
  with normalize_tokens[OF wc] show ?thesis by (simp add: toLowerCase_joinWords)
qed

lemma set_collapseWhitespace: "set (collapseWhitespace s) \<subseteq> insert (CHR '' '') (set s)"
proof (induction "length s" arbitrary: s rule: less_induct)
  case less
  show ?case
  proof (cases s)
    case Nil
    then show ?thesis by simp
  next
    case (Cons c cs)
    have "length (dropWhile isSpaceChar cs) < length s"
      using Cons by (simp add: less_Suc_eq_le length_dropWhile_le)
    then have "set (collapseWhitespace (dropWhile isSpaceChar cs))
        \<subseteq> insert (CHR '' '') (set (dropWhile isSpaceChar cs))"
      by (rule less.hyps)
    moreover have "set (dropWhile isSpaceChar cs) \<subseteq> set cs"
      by (auto dest: set_dropWhileD)
    moreover have "set (collapseWhitespace cs) \<subseteq> insert (CHR '' '') (set cs)"
      using less.hyps[of cs] Cons by simp
    ultimately show ?thesis using Cons by auto
  qed
qed

lemma set_trim: "set (trim s) \<subseteq> set s"
  by (auto simp: trim_def dest!: set_dropWhileD)

lemma normalize_chars: "\<forall>c\<in>set (normalizeCompanyName x). isWordChar c \<or> isSpaceChar c"
proof
  fix c
  assume "c \<in> set (normalizeCompanyName x)"
  then have "c \<in> set (collapseWhitespace
      (stripPunctuation (removeSuffixes False (toLowerCase x))))"
    using set_trim by (auto simp: normalizeCompanyName_def)
  then have "c = CHR '' '' \<or> c \<in> set (stripPunctuation (removeSuffixes False (toLowerCase x)))"
    using set_collapseWhitespace by blast
  then show "isWordChar c \<or> isSpaceChar c"
    by (auto simp: stripPunctuation_def space_is_space)
qed

text \<open>The first replacement on every string: whole runs of word characters.\<close>

lemma nonword_not_lowerAZ: "\<not> isWordChar c \<Longrightarrow> \<not> isLowerAZ (toLowerChar c)"
  by (auto simp: isWordChar_def toLowerChar_def isLowerAZ_def isUpperAZ_def isDigitChar_def Let_def)

lemma matchSuffixAt_nonword: "\<not> isWordChar c \<Longrightarrow> matchSuffixAt p (c # cs) = None"
  by (simp add: matchSuffixAt_def
      matchAlternatives_nonletter[OF suffixWords_heads nonword_not_lowerAZ])

lemma removeSuffixes_nonword:
  "\<not> isWordChar c \<Longrightarrow> removeSuffixes p (c # cs) = c # removeSuffixes False cs"
  by (simp add: matchSuffixAt_nonword)

lemma alternative_matches_run_iff:
  assumes w: "\<forall>c\<in>set w. isWordChar c"
    and r: "r = [] \<or> \<not> isWordChar (hd r)"
    and a: "\<forall>c\<in>set a. isLowerAZ c"
  shows "(length a \<le> length (w @ r) \<and> map toLowerChar (take (length a) (w @ r)) = a
          \<and> wordBoundary True (drop (length a) (w @ r))) \<longleftrightarrow> a = map toLowerChar w"
proof
  assume "a = map toLowerChar w"
  moreover have "wordBoundary True r"
    using r by (auto simp: wordBoundary_def)
  ultimately show "length a \<le> length (w @ r) \<and> map toLowerChar (take (length a) (w @ r)) = a
          \<and> wordBoundary True (drop (length a) (w @ r))"
    by simp
next
  assume c: "length a \<le> length (w @ r) \<and> map toLowerChar (take (length a) (w @ r)) = a
          \<and> wordBoundary True (drop (length a) (w @ r))"
  consider "length a < length w" | "length a = length w" | "length w < length a" by linarith
  then show "a = map toLowerChar w"
  proof cases
    case 1
    then have ne: "drop (length a) w \<noteq> []" by simp
    then have "hd (drop (length a) w) \<in> set w"
      by (metis hd_in_set in_set_dropD)
    with w have "isWordChar (hd (drop (length a) w))" by simp
    with ne have "\<not> wordBoundary True (drop (length a) (w @ r))"
      by (simp add: wordBoundary_def)
    with c show ?thesis by simp
  next
    case 2
    with c show ?thesis by simp
  next
    case 3
    from c have len: "length a \<le> length (w @ r)" by blast
    from c have eq: "map toLowerChar (take (length a) (w @ r)) = a" by blast
    from 3 len have rne: "r \<noteq> []" by auto
    from 3 len have lt: "length w < length (take (length a) (w @ r))" by simp
    have "a ! length w = map toLowerChar (take (length a) (w @ r)) ! length w"
      using arg_cong[where f="\<lambda>x. x ! length w", OF eq] by simp
    also have "\<dots> = toLowerChar (take (length a) (w @ r) ! length w)"
      using lt by (rule nth_map)
    also have "\<dots> = toLowerChar ((w @ r) ! length w)"
      by (simp only: nth_take[OF 3])
    also have "\<dots> = toLowerChar (hd r)" using rne by (simp add: nth_append hd_conv_nth)
    finally have "a ! length w = toLowerChar (hd r)" .
    moreover have "a ! length w \<in> set a" using 3 by simp
    ultimately have "isLowerAZ (toLowerChar (hd r))" using a by auto
    moreover from r rne have "\<not> isLowerAZ (toLowerChar (hd r))"
      by (simp add: nonword_not_lowerAZ)
    ultimately show ?thesis by simp
  qed
qed

lemma matchAlternatives_run:
  assumes w: "\<forall>c\<in>set w. isWordChar c"
    and r: "r = [] \<or> \<not> isWordChar (hd r)"
    and ws: "\<forall>a\<in>set ws. \<forall>c\<in>set a. isLowerAZ c"
  shows "matchAlternatives ws (w @ r) = (if map toLowerChar w \<in> set ws then Some r else None)"
  using ws
proof (induction ws)
  case Nil
  then show ?case by simp
next
  case (Cons a ws)
  then have a: "\<forall>c\<in>set a. isLowerAZ c" by simp
  let ?C = "length a \<le> length (w @ r) \<and> map toLowerChar (take (length a) (w @ r)) = a
          \<and> wordBoundary True (drop (length a) (w @ r))"
  have iff: "?C \<longleftrightarrow> a = map toLowerChar w" by (rule alternative_matches_run_iff[OF w r a])
  have step: "matchAlternatives (a # ws) (w @ r) =
      (if ?C then Some (drop (length a) (w @ r)) else matchAlternatives ws (w @ r))"
    by (simp only: matchAlternatives.simps)
  show ?case
  proof (cases "a = map toLowerChar w")
    case True
    with iff have C: "?C" by blast
    have "matchAlternatives (a # ws) (w @ r) = Some (drop (length a) (w @ r))"
      by (subst step) (rule if_P, rule C)
    with True show ?thesis by simp
  next
    case False
    with iff have C: "\<not> ?C" by blast
    have "matchAlternatives (a # ws) (w @ r) = matchAlternatives ws (w @ r)"
      by (subst step) (rule if_not_P, rule C)
    with Cons False show ?thesis by auto
  qed
qed

lemma matchSuffixAt_run:
  assumes w: "w \<noteq> []" "\<forall>c\<in>set w. isWordChar c"
    and r: "r = [] \<or> \<not> isWordChar (hd r)"
  shows "matchSuffixAt False (w @ r)
         = (if map toLowerChar w \<in> set suffixWords then Some r else None)"
proof -
  have "wordBoundary False (w @ r)"
    using w by (cases w) (auto simp: wordBoundary_def)
  moreover have "\<forall>a\<in>set suffixWords. \<forall>c\<in>set a. isLowerAZ c"
    using suffixWords_lower by blast
  ultimately show ?thesis
    using matchAlternatives_run[OF w(2) r] by (simp add: matchSuffixAt_def)
qed

text \<open>The first replacement, for every string.\<close>

lemma removeSuffixes_runs:
  "(p \<longrightarrow> s = [] \<or> \<not> isWordChar (hd s)) \<Longrightarrow> removeSuffixes p s = dropSuffixRuns s"
proof (induction "length s" arbitrary: s p rule: less_induct)
  case less
  show ?case
  proof (cases s)
    case Nil
    then show ?thesis by simp
  next
    case (Cons c cs)
    show ?thesis
    proof (cases "isWordChar c")
      case False
      from less.hyps[of cs False] Cons have "removeSuffixes False cs = dropSuffixRuns cs"
        by simp
      with False Cons removeSuffixes_nonword[OF False, of p cs] show ?thesis
        by (simp del: removeSuffixes.simps)
    next
      case True
      define w where "w = c # takeWhile isWordChar cs"
      define r where "r = dropWhile isWordChar cs"
      have split: "c # cs = w @ r" by (simp add: w_def r_def)
      have wne: "w \<noteq> []" by (simp add: w_def)
      have ww: "\<forall>x\<in>set w. isWordChar x"
        using True by (auto simp: w_def dest: set_takeWhileD)
      have rr: "r = [] \<or> \<not> isWordChar (hd r)"
        unfolding r_def using hd_dropWhile[of isWordChar cs] by auto
      have rlen: "length r < length s"
        using Cons by (simp add: r_def less_Suc_eq_le length_dropWhile_le)
      from less.prems Cons True have p: "p = False" by simp
      have m: "matchSuffixAt False (c # cs)
          = (if map toLowerChar w \<in> set suffixWords then Some r else None)"
        using matchSuffixAt_run[OF wne ww rr] split by simp
      have ih: "removeSuffixes True r = dropSuffixRuns r"
        using less.hyps[OF rlen, of True] rr by simp
      have d: "dropSuffixRuns (c # cs) =
          (if map toLowerChar w \<in> set suffixWords
           then (case r of [] \<Rightarrow> []
                 | d # r' \<Rightarrow> if d = CHR ''.'' then dropSuffixRuns r' else dropSuffixRuns (d # r'))
           else w @ dropSuffixRuns r)"
        using True by (simp add: w_def r_def Let_def)
      show ?thesis
      proof (cases "map toLowerChar w \<in> set suffixWords")
        case suf: True
        have "removeSuffixes False (c # cs) =
            (case r of [] \<Rightarrow> []
             | d # r' \<Rightarrow> if d = CHR ''.'' then dropSuffixRuns r' else dropSuffixRuns (d # r'))"
        proof (cases r)
          case Nil
          with m suf show ?thesis by simp
        next
          case (Cons x r')
          show ?thesis
          proof (cases "x = CHR ''.''")
            case dot: True
            have "length r' < length s" using rlen Cons by simp
            from less.hyps[OF this, of False]
            have "removeSuffixes False r' = dropSuffixRuns r'" by simp
            with m suf Cons dot show ?thesis by simp
          next
            case nodot: False
            with m suf Cons have "removeSuffixes False (c # cs) = removeSuffixes True r"
              by simp
            with ih Cons nodot show ?thesis by simp
          qed
        qed
        with suf d p Cons show ?thesis
          by (simp del: removeSuffixes.simps dropSuffixRuns.simps)
      next
        case nosuf: False
        have tw: "\<forall>x\<in>set (takeWhile isWordChar cs). isWordChar x"
          by (auto dest: set_takeWhileD)
        have step1: "removeSuffixes False (c # cs) = c # removeSuffixes True cs"
          using m nosuf True by simp
        have "removeSuffixes True cs = removeSuffixes True (takeWhile isWordChar cs @ r)"
          by (simp add: r_def)
        also have "\<dots> = takeWhile isWordChar cs @ removeSuffixes True r"
          using tw by (rule removeSuffixes_inside_word)
        finally have step2: "removeSuffixes True cs = takeWhile isWordChar cs @ dropSuffixRuns r"
          using ih by simp
        from step1 step2 have "removeSuffixes False (c # cs) = w @ dropSuffixRuns r"
          by (simp add: w_def del: removeSuffixes.simps)
        with nosuf d p Cons show ?thesis
          by (simp del: removeSuffixes.simps dropSuffixRuns.simps)
      qed
    qed
  qed
qed

text \<open>When one pass is final.\<close>

lemma set_dropSuffixRuns: "set (dropSuffixRuns s) \<subseteq> set s"
proof (induction "length s" arbitrary: s rule: less_induct)
  case less
  show ?case
  proof (cases s)
    case Nil
    then show ?thesis by simp
  next
    case (Cons c cs)
    show ?thesis
    proof (cases "isWordChar c")
      case False
      with less.hyps[of cs] Cons show ?thesis by auto
    next
      case True
      define r where "r = dropWhile isWordChar cs"
      have rlen: "length r < length s" using Cons
        by (simp add: r_def less_Suc_eq_le length_dropWhile_le)
      have sr: "set r \<subseteq> set cs" by (auto simp: r_def dest: set_dropWhileD)
      have st: "set (takeWhile isWordChar cs) \<subseteq> set cs" by (auto dest: set_takeWhileD)
      have a: "set (dropSuffixRuns r) \<subseteq> set cs"
        using less.hyps[OF rlen] sr by blast
      have b: "set (case r of [] \<Rightarrow> []
                 | d # r' \<Rightarrow> if d = CHR ''.'' then dropSuffixRuns r' else dropSuffixRuns (d # r'))
               \<subseteq> set cs"
      proof (cases r)
        case Nil
        then show ?thesis by simp
      next
        case (Cons d r')
        have "length r' < length s" using rlen Cons by simp
        from less.hyps[OF this] have "set (dropSuffixRuns r') \<subseteq> set r" using Cons by auto
        with a sr Cons show ?thesis by auto
      qed
      from a b st True Cons show ?thesis
        by (auto simp: r_def[symmetric] Let_def simp del: dropSuffixRuns.simps
            simp add: dropSuffixRuns.simps(2)[of c cs])
    qed
  qed
qed

lemma set_removeSuffixes: "set (removeSuffixes False s) \<subseteq> set s"
  using set_dropSuffixRuns[of s] by (simp add: removeSuffixes_runs)

lemma toLower_not_upper: "\<not> isUpperAZ (toLowerChar d)"
  by (auto simp: toLowerChar_def isUpperAZ_def Let_def)

lemma toLower_word_lowerWord: "isWordChar (toLowerChar d) \<Longrightarrow> isLowerWord (toLowerChar d)"
  using toLower_not_upper[of d] by (auto simp: isWordChar_def isLowerWord_def)

lemma plainLower_normalize: "plainLower (normalizeCompanyName x)"
  unfolding plainLower_def
proof
  fix c
  assume "c \<in> set (normalizeCompanyName x)"
  then have "c \<in> set (collapseWhitespace
      (stripPunctuation (removeSuffixes False (toLowerCase x))))"
    using set_trim by (auto simp: normalizeCompanyName_def)
  then have "c = CHR '' '' \<or> c \<in> set (stripPunctuation (removeSuffixes False (toLowerCase x)))"
    using set_collapseWhitespace by blast
  then show "isSpaceChar c \<or> isLowerWord c"
  proof
    assume "c = CHR '' ''"
    then show ?thesis by (simp add: space_is_space)
  next
    assume "c \<in> set (stripPunctuation (removeSuffixes False (toLowerCase x)))"
    then have w: "isWordChar c \<or> isSpaceChar c"
      and m: "c \<in> set (removeSuffixes False (toLowerCase x))"
      by (auto simp: stripPunctuation_def)
    from m set_removeSuffixes have "c \<in> set (toLowerCase x)" by blast
    then obtain d where "c = toLowerChar d" by (auto simp: toLowerCase_def)
    with w show ?thesis using toLower_word_lowerWord by auto
  qed
qed

text \<open>A normal form is its own tokens joined by single spaces.\<close>

lemma normalize_is_joined:
  "normalizeCompanyName x = joinWords (tokens (normalizeCompanyName x))"
proof -
  define z where "z = stripPunctuation (removeSuffixes False (toLowerCase x))"
  have y: "normalizeCompanyName x = joinWords (tokens z)"
    by (simp add: normalizeCompanyName_def z_def trim_collapse_tokens)
  have "\<forall>w\<in>set (tokens z). w \<noteq> [] \<and> (\<forall>c\<in>set w. \<not> isSpaceChar c)"
    using tokens_nonempty[of z] tokens_chars[of _ z] by blast
  then have "tokens (joinWords (tokens z)) = tokens z" by (rule tokens_joinWords)
  with y show ?thesis by simp
qed

lemma normalize_normal_form:
  "normalizeCompanyName (normalizeCompanyName x)
   = joinWords (filter (\<lambda>w. w \<notin> set suffixWords) (tokens (normalizeCompanyName x)))"
proof -
  have pl: "plainLower (normalizeCompanyName x)" by (rule plainLower_normalize)
  have "normalizeCompanyName (normalizeCompanyName x)
      = trim (collapseWhitespace (stripPunctuation
          (removeSuffixes False (normalizeCompanyName x))))"
    using toLowerCase_plainLower[OF pl]
    by (simp add: normalizeCompanyName_def[of "normalizeCompanyName x"])
  also have "\<dots> = joinWords (filter (\<lambda>w. w \<notin> set suffixWords)
                            (tokens (normalizeCompanyName x)))"
    using pl by (rule normalize_plainLower)
  finally show ?thesis .
qed

lemma normalize_idem_iff:
  "normalizeCompanyName (normalizeCompanyName x) = normalizeCompanyName x
   \<longleftrightarrow> (\<forall>w\<in>set (tokens (normalizeCompanyName x)). w \<notin> set suffixWords)"
proof -
  define ws where "ws = tokens (normalizeCompanyName x)"
  have wf: "\<forall>w\<in>set ws. w \<noteq> [] \<and> (\<forall>c\<in>set w. \<not> isSpaceChar c)"
    unfolding ws_def using tokens_nonempty[of "normalizeCompanyName x"]
      tokens_chars[of _ "normalizeCompanyName x"] by blast
  then have wf': "\<forall>w\<in>set (filter (\<lambda>w. w \<notin> set suffixWords) ws).
      w \<noteq> [] \<and> (\<forall>c\<in>set w. \<not> isSpaceChar c)" by auto
  have y: "normalizeCompanyName x = joinWords ws"
    unfolding ws_def by (rule normalize_is_joined)
  have ny: "normalizeCompanyName (normalizeCompanyName x)
      = joinWords (filter (\<lambda>w. w \<notin> set suffixWords) ws)"
    unfolding ws_def by (rule normalize_normal_form)
  have "joinWords (filter (\<lambda>w. w \<notin> set suffixWords) ws) = joinWords ws
      \<longleftrightarrow> filter (\<lambda>w. w \<notin> set suffixWords) ws = ws"
  proof
    assume "joinWords (filter (\<lambda>w. w \<notin> set suffixWords) ws) = joinWords ws"
    then have "tokens (joinWords (filter (\<lambda>w. w \<notin> set suffixWords) ws))
        = tokens (joinWords ws)" by simp
    then show "filter (\<lambda>w. w \<notin> set suffixWords) ws = ws"
      using tokens_joinWords[OF wf] tokens_joinWords[OF wf'] by simp
  next
    assume "filter (\<lambda>w. w \<notin> set suffixWords) ws = ws"
    then show "joinWords (filter (\<lambda>w. w \<notin> set suffixWords) ws) = joinWords ws" by simp
  qed
  also have "filter (\<lambda>w. w \<notin> set suffixWords) ws = ws \<longleftrightarrow> (\<forall>w\<in>set ws. w \<notin> set suffixWords)"
    by (rule filter_id_conv)
  finally have "joinWords (filter (\<lambda>w. w \<notin> set suffixWords) ws) = joinWords ws
      \<longleftrightarrow> (\<forall>w\<in>set ws. w \<notin> set suffixWords)" .
  then show ?thesis
    unfolding ws_def[symmetric] using y ny by simp
qed

lemma normalize_second_pass_final:
  "normalizeCompanyName (normalizeCompanyName (normalizeCompanyName x))
   = normalizeCompanyName (normalizeCompanyName x)"
proof -
  have "\<forall>c\<in>set (normalizeCompanyName x). isWordChar c \<or> isSpaceChar c"
    by (rule normalize_chars)
  then show ?thesis by (rule normalize_idem_plain)
qed

text \<open>
  C5, as the code has it. The suffix words are removed before the punctuation is, so a
  name whose punctuation hides a suffix word ("L.L.C.") loses the word only in a second
  pass. For every string \<open>x\<close>: normalizing the normal form of \<open>x\<close> again changes nothing
  if and only if no whitespace-separated token of the normal form is one of the suffix
  words; and the second pass is always final.
\<close>

theorem normalizeCompanyName_idempotent_iff:
  "(normalizeCompanyName (normalizeCompanyName x) = normalizeCompanyName x
      \<longleftrightarrow> (\<forall>w\<in>set (tokens (normalizeCompanyName x)). w \<notin> set suffixWords))
   \<and> normalizeCompanyName (normalizeCompanyName (normalizeCompanyName x))
       = normalizeCompanyName (normalizeCompanyName x)"
  using normalize_idem_iff[of x] normalize_second_pass_final[of x] by blast

theorem normalizeCompanyName_idempotent_iff_witness:
  "normalizeCompanyName ''Acme, Inc.'' = ''acme''
   \<and> list_all (\<lambda>w. w \<notin> set suffixWords) (tokens (normalizeCompanyName ''Acme, Inc.''))
   \<and> normalizeCompanyName (normalizeCompanyName ''Acme, Inc.'')
       = normalizeCompanyName ''Acme, Inc.''"
proof -
  have a: "normalizeCompanyName ''Acme, Inc.'' = ''acme''" by code_simp
  have t: "tokens ''acme'' = [''acme'']" by code_simp
  have h: "\<forall>w\<in>set (tokens (normalizeCompanyName ''Acme, Inc.'')). w \<notin> set suffixWords"
    by (simp add: a t suffixWords_def)
  with normalizeCompanyName_idempotent_iff[of "''Acme, Inc.''"]
  have "normalizeCompanyName (normalizeCompanyName ''Acme, Inc.'')
       = normalizeCompanyName ''Acme, Inc.''"
    by blast
  with a h show ?thesis by (simp only: list_all_iff simp_thms)
qed

text \<open>
  C5, as the specification states it, fails: "Acme L.L.C." normalizes to "acme llc" (the
  first replacement finds no suffix word between the periods), and "acme llc" normalizes
  to "acme".
\<close>

theorem normalizeCompanyName_idempotent_counterexample:
  "normalizeCompanyName ''Acme L.L.C.'' = ''acme llc''
   \<and> normalizeCompanyName (normalizeCompanyName ''Acme L.L.C.'') = ''acme''
   \<and> normalizeCompanyName (normalizeCompanyName ''Acme L.L.C.'')
       \<noteq> normalizeCompanyName ''Acme L.L.C.''"
proof -
  have a: "normalizeCompanyName ''Acme L.L.C.'' = ''acme llc''" by code_simp
  have b: "normalizeCompanyName ''acme llc'' = ''acme''" by code_simp
  show ?thesis by (simp add: a b)
qed

text \<open>
  C6, as the code has it. The first replacement removes exactly the maximal runs of word
  characters (\<^verbatim>\<open>[A-Za-z0-9_]\<close>) that are, case-insensitively, suffix words, each with one
  period that follows it, and nothing else (\<^const>\<open>dropSuffixRuns\<close>), on every string; the
  normal form is the lower-cased name after that removal, stripped of punctuation, with
  whitespace collapsed and trimmed. A run ends at every character that is no word
  character, not only at whitespace. In a name of non-empty words of word characters
  joined by single spaces, the result is the lower-cased words that are not suffix words,
  in order, each kept whole. In particular "Incorporate Systems Inc" keeps "incorporate"
  and normalizes to "incorporate systems".
\<close>

theorem normalizeCompanyName_whole_runs:
  "removeSuffixes False s = dropSuffixRuns s
   \<and> normalizeCompanyName x
       = trim (collapseWhitespace (stripPunctuation (dropSuffixRuns (toLowerCase x))))
   \<and> ((\<forall>w\<in>set ws. w \<noteq> [] \<and> (\<forall>c\<in>set w. isWordChar c)) \<longrightarrow>
        normalizeCompanyName (joinWords ws)
          = joinWords (filter (\<lambda>w. w \<notin> set suffixWords) (map toLowerCase ws)))
   \<and> normalizeCompanyName ''Incorporate Systems Inc'' = ''incorporate systems''"
proof -
  have a: "removeSuffixes False s = dropSuffixRuns s" for s
    by (simp add: removeSuffixes_runs)
  have b: "normalizeCompanyName x
       = trim (collapseWhitespace (stripPunctuation (dropSuffixRuns (toLowerCase x))))"
    by (simp add: normalizeCompanyName_def a)
  have c: "normalizeCompanyName ''Incorporate Systems Inc'' = ''incorporate systems''"
    by code_simp
  from a b c normalize_joinWords[of ws] show ?thesis by blast
qed

theorem normalizeCompanyName_whole_runs_witness:
  "list_all (\<lambda>w. w \<noteq> [] \<and> list_all isWordChar w) [''Incorporate'', ''Systems'', ''Inc'']
   \<and> joinWords [''Incorporate'', ''Systems'', ''Inc''] = ''Incorporate Systems Inc''
   \<and> normalizeCompanyName (joinWords [''Incorporate'', ''Systems'', ''Inc''])
       = joinWords [''incorporate'', ''systems'']"
proof -
  have h: "\<forall>w\<in>set [''Incorporate'', ''Systems'', ''Inc''].
       w \<noteq> [] \<and> (\<forall>c\<in>set w. isWordChar c)"
    by (simp add: isWordChar_def isDigitChar_def isUpperAZ_def isLowerAZ_def)
  have f: "filter (\<lambda>w. w \<notin> set suffixWords)
             (map toLowerCase [''Incorporate'', ''Systems'', ''Inc''])
           = [''incorporate'', ''systems'']"
    by code_simp
  have j: "joinWords [''Incorporate'', ''Systems'', ''Inc''] = ''Incorporate Systems Inc''"
    by simp
  from normalizeCompanyName_whole_runs[of _ _ "[''Incorporate'', ''Systems'', ''Inc'']"] h
  have "normalizeCompanyName (joinWords [''Incorporate'', ''Systems'', ''Inc''])
        = joinWords (filter (\<lambda>w. w \<notin> set suffixWords)
             (map toLowerCase [''Incorporate'', ''Systems'', ''Inc'']))"
    by blast
  with h f j show ?thesis by (simp only: list_all_iff simp_thms)
qed

text \<open>
  C6, as the specification states it, fails: the token "Co-operative" is no suffix word,
  yet the normal form of "Co-operative Bank" is "operative bank". The hyphen is a word
  boundary, so the run "Co" is removed out of the token.
\<close>

theorem normalizeCompanyName_inside_word_counterexample:
  "tokens ''Co-operative Bank'' = [''Co-operative'', ''Bank'']
   \<and> toLowerCase ''Co-operative'' \<notin> set suffixWords
   \<and> normalizeCompanyName ''Co-operative Bank'' = ''operative bank''"
proof -
  have a: "tokens ''Co-operative Bank'' = [''Co-operative'', ''Bank'']" by code_simp
  have b: "toLowerCase ''Co-operative'' = ''co-operative''" by code_simp
  have c: "normalizeCompanyName ''Co-operative Bank'' = ''operative bank''" by code_simp
  have d: "''co-operative'' \<notin> set suffixWords" by (simp add: suffixWords_def)
  from a c d show ?thesis unfolding b by (intro conjI)
qed

section \<open>Properties of the classifier\<close>




















section \<open>Properties of the deduplicator\<close>



section \<open>Properties of the candidate retriever\<close>

text \<open>What one call of samFetch adds to the trace.\<close>

lemma samFetch_trace:
  "snd (samFetch reg ps l tr) = tr @ [Fetch l ps]
   \<or> snd (samFetch reg ps l tr) = tr @ [Fetch l ps, Delay 2000, Fetch l ps]"
  by (simp add: samFetch_def Let_def split: reply.splits)

lemma samFetch_cases:
  obtains (once) d where "samFetch reg ps l tr = (d, tr @ [Fetch l ps])"
  | (twice) d where "samFetch reg ps l tr = (d, tr @ [Fetch l ps, Delay 2000, Fetch l ps])"
  using samFetch_trace[of reg ps l tr] by (cases "samFetch reg ps l tr") auto

lemma strategiesOf_append: "strategiesOf (xs @ ys) = strategiesOf xs @ strategiesOf ys"
  by (induction xs rule: strategiesOf.induct) simp_all

lemma samFetch_429:
  assumes "reg tr ps = Reply 429 b"
  shows "snd (samFetch reg ps l tr) = tr @ [Fetch l ps, Delay 2000, Fetch l ps]"
    and "reg (tr @ [Fetch l ps, Delay 2000]) ps = Reply s' b' \<Longrightarrow> \<not> isOk s'
         \<Longrightarrow> fst (samFetch reg ps l tr) = Inr (Some [])"
    and "reg (tr @ [Fetch l ps, Delay 2000]) ps = Reply s' b' \<Longrightarrow> isOk s'
         \<Longrightarrow> fst (samFetch reg ps l tr) = json b'"
  using assms by (simp_all add: samFetch_def Let_def split: reply.splits)

lemma samFetch_not_ok:
  assumes "reg tr ps = Reply s b" "s \<noteq> 429" "\<not> isOk s"
  shows "samFetch reg ps l tr = (Inr (Some []), tr @ [Fetch l ps])"
  using assms by (simp add: samFetch_def Let_def)

lemma samFetch_ok:
  assumes "reg tr ps = Reply s b" "isOk s"
  shows "samFetch reg ps l tr = (json b, tr @ [Fetch l ps])"
proof -
  from assms(2) have "s \<noteq> 429" by (auto simp: isOk_def)
  with assms show ?thesis by (simp add: samFetch_def Let_def)
qed

text \<open>The source's chain is the loop over the applicable strategies.\<close>

lemma runChain_last:
  "runChain reg [(l, ps)] tr =
     (case samFetch reg ps l tr of
        (Inl f, tr') \<Rightarrow> (Inl f, tr')
      | (Inr None, tr') \<Rightarrow> (Inr [], tr')
      | (Inr (Some es), tr') \<Rightarrow> (Inr es, tr'))"
  by (simp split: prod.splits sum.splits option.splits)

lemma runChain_Cons2:
  "runChain reg ((l, ps) # s2 # rest) tr =
     (case samFetch reg ps l tr of
        (d, tr') \<Rightarrow> if noResults d then runChain reg (s2 # rest) (tr' @ [Delay 500])
                    else (case d of Inl f \<Rightarrow> Inl f | Inr None \<Rightarrow> Inr [] | Inr (Some es) \<Rightarrow> Inr es, tr'))"
  by (auto simp: noResults_def split: prod.splits sum.splits option.splits)

lemma finish_noResults:
  "noResults d \<Longrightarrow> (case d of Inl f \<Rightarrow> Inl f | Inr None \<Rightarrow> Inr [] | Inr (Some es) \<Rightarrow> Inr es) = Inr []"
  by (auto simp: noResults_def split: sum.splits option.splits)

lemma searchSamApi_runChain:
  "searchSamApi apiKey reg name state domain tr0
   = runChain reg (applicableStrategies apiKey name state domain) tr0"
proof (cases "truthy state")
  case s: True
  show ?thesis
  proof (cases "truthy domain")
    case d: True
    show ?thesis using s d
      by (simp add: searchSamApi_def applicableStrategies_def Let_def runChain_Cons2 runChain_last
          del: runChain.simps split: prod.splits) (auto split: sum.splits option.splits simp: noResults_def)
  next
    case d: False
    show ?thesis using s d
      by (simp add: searchSamApi_def applicableStrategies_def Let_def runChain_Cons2 runChain_last
          del: runChain.simps split: prod.splits) (auto split: sum.splits option.splits simp: noResults_def)
  qed
next
  case s: False
  show ?thesis
  proof (cases "truthy domain")
    case d: True
    show ?thesis using s d
      by (simp add: searchSamApi_def applicableStrategies_def Let_def runChain_Cons2 runChain_last
          del: runChain.simps split: prod.splits) (auto split: sum.splits option.splits simp: noResults_def)
  next
    case d: False
    show ?thesis using s d
      by (simp add: searchSamApi_def applicableStrategies_def Let_def runChain_Cons2 runChain_last
          del: runChain.simps split: prod.splits) (auto split: sum.splits option.splits simp: noResults_def)
  qed
qed


lemma remdups_adj_Cons_other:
  "xs = [] \<or> hd xs \<noteq> l \<Longrightarrow> remdups_adj (l # xs) = l # remdups_adj xs"
  by (cases xs) auto

lemma hd_remdups_adj: "hd (remdups_adj xs) = hd xs"
  by (cases xs) (simp_all add: hd_remdups_adj)

lemma samFetch_strategies:
  obtains d new where "samFetch reg ps l tr = (d, tr @ new)"
    and "strategiesOf new = [l] \<or> strategiesOf new = [l, l]"
proof (cases rule: samFetch_cases[of reg ps l tr])
  case (once d)
  show ?thesis by (rule that[of d "[Fetch l ps]"]) (simp_all add: once)
next
  case (twice d)
  show ?thesis by (rule that[of d "[Fetch l ps, Delay 2000, Fetch l ps]"]) (simp_all add: twice)
qed

text \<open>
  The requests of the loop: only listed strategies are queried, the first one always,
  and in the order of the list (a label is repeated only by its own retry).
\<close>

lemma runChain_trace:
  "\<exists>new. snd (runChain reg strats tr) = tr @ new
     \<and> set (strategiesOf new) \<subseteq> fst ` set strats
     \<and> (strats \<noteq> [] \<longrightarrow> strategiesOf new \<noteq> [] \<and> hd (strategiesOf new) = fst (hd strats))
     \<and> (distinct (map fst strats) \<longrightarrow>
          (\<exists>k. remdups_adj (strategiesOf new) = take k (map fst strats)))"
proof (induction strats arbitrary: tr)
  case Nil
  show ?case by simp
next
  case (Cons s rest)
  obtain l ps where s: "s = (l, ps)" by (cases s)
  obtain d new1 where f: "samFetch reg ps l tr = (d, tr @ new1)"
    and n1: "strategiesOf new1 = [l] \<or> strategiesOf new1 = [l, l]"
    by (rule samFetch_strategies)
  show ?case
  proof (cases "noResults d \<and> rest \<noteq> []")
    case False
    then have a: "snd (runChain reg (s # rest) tr) = tr @ new1"
      using f s by (auto simp: noResults_def split: sum.splits option.splits)
    have b: "set (strategiesOf new1) \<subseteq> fst ` set (s # rest)"
      using n1 s by auto
    have c: "strategiesOf new1 \<noteq> [] \<and> hd (strategiesOf new1) = fst (hd (s # rest))"
      using n1 s by auto
    have "remdups_adj (strategiesOf new1) = take (Suc 0) (map fst (s # rest))"
      using n1 s by auto
    then have d: "\<exists>k. remdups_adj (strategiesOf new1) = take k (map fst (s # rest))"
      by (rule exI)
    from a b c d show ?thesis by blast
  next
    case True
    then have cont: "runChain reg (s # rest) tr = runChain reg rest ((tr @ new1) @ [Delay 500])"
      using f s by (auto simp: noResults_def split: sum.splits option.splits)
    from Cons.IH[of "(tr @ new1) @ [Delay 500]"] obtain new' where
      t: "snd (runChain reg rest ((tr @ new1) @ [Delay 500])) = ((tr @ new1) @ [Delay 500]) @ new'"
      and sub: "set (strategiesOf new') \<subseteq> fst ` set rest"
      and ord: "distinct (map fst rest) \<longrightarrow>
          (\<exists>k. remdups_adj (strategiesOf new') = take k (map fst rest))"
      by blast
    define new where "new = new1 @ [Delay 500] @ new'"
    have st: "strategiesOf new = strategiesOf new1 @ strategiesOf new'"
      by (simp add: new_def strategiesOf_append)
    have a: "snd (runChain reg (s # rest) tr) = tr @ new"
      using cont t by (simp add: new_def)
    have b: "set (strategiesOf new) \<subseteq> fst ` set (s # rest)"
      using sub n1 s st by auto
    have c: "strategiesOf new \<noteq> [] \<and> hd (strategiesOf new) = fst (hd (s # rest))"
      using n1 s st by auto
    have d: "\<exists>k. remdups_adj (strategiesOf new) = take k (map fst (s # rest))"
      if dist: "distinct (map fst (s # rest))"
    proof -
      from dist ord obtain k where k: "remdups_adj (strategiesOf new') = take k (map fst rest)"
        by auto
      from dist s have "l \<notin> fst ` set rest" by auto
      with sub have "l \<notin> set (strategiesOf new')" by auto
      then have hd: "strategiesOf new' = [] \<or> hd (strategiesOf new') \<noteq> l"
        by (cases "strategiesOf new'") auto
      have "remdups_adj (strategiesOf new) = l # remdups_adj (strategiesOf new')"
        using n1 st remdups_adj_Cons_other[OF hd] by auto
      then have "remdups_adj (strategiesOf new) = take (Suc k) (map fst (s # rest))"
        using k s by simp
      then show ?thesis by blast
    qed
    from a b c d show ?thesis by blast
  qed
qed

lemma applicable_labels:
  "map fst (applicableStrategies apiKey name state domain) =
     [''name+state''] @ (if truthy state then [''name only''] else [])
     @ (if truthy domain then [''domain''] else []) @ [''samSearch'']"
  by (simp add: applicableStrategies_def)

lemma applicable_distinct: "distinct (map fst (applicableStrategies apiKey name state domain))"
  by (simp add: applicable_labels)

lemma applicable_first:
  "applicableStrategies apiKey name state domain =
     (''name+state'', paramsNameState apiKey (normalizeCompanyName name) state)
       # tl (applicableStrategies apiKey name state domain)"
  by (simp add: applicableStrategies_def)

lemma runChain_first_result:
  assumes "samFetch reg ps l tr = (Inr (Some es), tr')" "es \<noteq> []"
  shows "runChain reg ((l, ps) # rest) tr = (Inr es, tr')"
  using assms by simp

lemma runChain_continue:
  assumes "noResults (fst (samFetch reg ps l tr))" "rest \<noteq> []"
  shows "runChain reg ((l, ps) # rest) tr
         = runChain reg rest (snd (samFetch reg ps l tr) @ [Delay 500])"
  using assms by (auto simp: noResults_def split: prod.splits sum.splits option.splits)

lemma samFetch_all_fail:
  assumes "\<forall>h q. \<exists>s b. reg h q = Reply s b \<and> \<not> isOk s"
  shows "fst (samFetch reg ps l tr) = Inr (Some [])"
proof -
  from assms obtain s b where r1: "reg tr ps = Reply s b" "\<not> isOk s" by blast
  show ?thesis
  proof (cases "s = 429")
    case True
    from assms obtain s' b' where r2: "reg (tr @ [Fetch l ps, Delay 2000]) ps = Reply s' b'"
      "\<not> isOk s'" by blast
    from r1 True have "reg tr ps = Reply 429 b" by simp
    with r2 show ?thesis by (simp add: samFetch_def Let_def)
  next
    case False
    with r1 show ?thesis by (simp add: samFetch_def Let_def)
  qed
qed

lemma runChain_all_fail:
  assumes "\<forall>h q. \<exists>s b. reg h q = Reply s b \<and> \<not> isOk s"
    and "distinct (map fst strats)"
  shows "fst (runChain reg strats tr) = Inr []
     \<and> (\<exists>new. snd (runChain reg strats tr) = tr @ new
           \<and> remdups_adj (strategiesOf new) = map fst strats)"
  using assms(2)
proof (induction strats arbitrary: tr)
  case Nil
  show ?case by simp
next
  case (Cons s rest)
  obtain l ps where s: "s = (l, ps)" by (cases s)
  obtain d new1 where f: "samFetch reg ps l tr = (d, tr @ new1)"
    and n1: "strategiesOf new1 = [l] \<or> strategiesOf new1 = [l, l]"
    by (rule samFetch_strategies)
  from samFetch_all_fail[OF assms(1), of ps l tr] f have d: "d = Inr (Some [])" by simp
  show ?case
  proof (cases "rest = []")
    case True
    have "runChain reg (s # rest) tr = (Inr [], tr @ new1)"
      using f d s True by simp
    moreover have "remdups_adj (strategiesOf new1) = map fst (s # rest)"
      using n1 s True by auto
    ultimately show ?thesis by auto
  next
    case False
    have cont: "runChain reg (s # rest) tr = runChain reg rest ((tr @ new1) @ [Delay 500])"
      using f d s False by simp
    from Cons.prems have dr: "distinct (map fst rest)" and nl: "l \<notin> fst ` set rest"
      using s by auto
    from Cons.IH[OF dr, of "(tr @ new1) @ [Delay 500]"] obtain new' where
      r: "fst (runChain reg rest ((tr @ new1) @ [Delay 500])) = Inr []"
      and t: "snd (runChain reg rest ((tr @ new1) @ [Delay 500])) = ((tr @ new1) @ [Delay 500]) @ new'"
      and o: "remdups_adj (strategiesOf new') = map fst rest"
      by blast
    define new where "new = new1 @ [Delay 500] @ new'"
    have st: "strategiesOf new = strategiesOf new1 @ strategiesOf new'"
      by (simp add: new_def strategiesOf_append)
    from False o have ne: "strategiesOf new' \<noteq> []" by (cases "strategiesOf new'") auto
    have "hd (strategiesOf new') = hd (remdups_adj (strategiesOf new'))"
      by (simp add: hd_remdups_adj)
    also have "\<dots> = fst (hd rest)" using o False by (simp add: hd_map)
    finally have "hd (strategiesOf new') \<in> fst ` set rest" using False by simp
    with nl have hd: "strategiesOf new' = [] \<or> hd (strategiesOf new') \<noteq> l" by auto
    have "remdups_adj (strategiesOf new) = l # remdups_adj (strategiesOf new')"
      using n1 st remdups_adj_Cons_other[OF hd] by auto
    then have o': "remdups_adj (strategiesOf new) = map fst (s # rest)"
      using o s by simp
    have a: "snd (runChain reg (s # rest) tr) = tr @ new"
      using cont t by (simp add: new_def)
    have b: "fst (runChain reg (s # rest) tr) = Inr []"
      using cont r by simp
    from a b o' show ?thesis by blast
  qed
qed

lemma samFetch_no_throw:
  assumes "\<forall>h q. \<exists>s b. reg h q = Reply s b \<and> (isOk s \<longrightarrow> b \<noteq> NotJson)"
  shows "\<exists>d. fst (samFetch reg ps l tr) = Inr d"
proof -
  have j: "\<exists>d. json b = Inr d" if "b \<noteq> NotJson" for b
    using that by (cases b) (auto simp: json_def)
  from assms obtain s b where r1: "reg tr ps = Reply s b" "isOk s \<longrightarrow> b \<noteq> NotJson" by blast
  from assms obtain s' b' where r2: "reg (tr @ [Fetch l ps, Delay 2000]) ps = Reply s' b'"
      "isOk s' \<longrightarrow> b' \<noteq> NotJson" by blast
  show ?thesis
    using r1 r2 j[of b] j[of b'] by (auto simp: samFetch_def Let_def)
qed

lemma runChain_no_throw:
  assumes "\<forall>h q. \<exists>s b. reg h q = Reply s b \<and> (isOk s \<longrightarrow> b \<noteq> NotJson)"
  shows "\<exists>es. fst (runChain reg strats tr) = Inr es"
proof (induction strats arbitrary: tr)
  case Nil
  show ?case by simp
next
  case (Cons s rest)
  obtain l ps where s: "s = (l, ps)" by (cases s)
  from samFetch_no_throw[OF assms, of ps l tr] obtain d where
    d: "fst (samFetch reg ps l tr) = Inr d" by blast
  then obtain tr' where f: "samFetch reg ps l tr = (Inr d, tr')"
    by (cases "samFetch reg ps l tr") auto
  show ?case
    using f s Cons.IH[of "tr' @ [Delay 500]"] by (cases d) auto
qed

lemma runChain_result_last:
  assumes "fst (runChain reg strats tr) = Inr es" "es \<noteq> []"
  shows "\<exists>l ps pre. (l, ps) \<in> set strats
           \<and> samFetch reg ps l (tr @ pre) = (Inr (Some es), snd (runChain reg strats tr))"
  using assms(1)
proof (induction strats arbitrary: tr)
  case Nil
  with assms(2) show ?case by simp
next
  case (Cons s rest)
  obtain l ps where s: "s = (l, ps)" by (cases s)
  obtain d new1 where f: "samFetch reg ps l tr = (d, tr @ new1)"
    by (rule samFetch_strategies)
  show ?case
  proof (cases "noResults d \<and> rest \<noteq> []")
    case True
    then have cont: "runChain reg (s # rest) tr = runChain reg rest ((tr @ new1) @ [Delay 500])"
      using f s by (auto simp: noResults_def split: sum.splits option.splits)
    with Cons.prems have "fst (runChain reg rest ((tr @ new1) @ [Delay 500])) = Inr es" by simp
    from Cons.IH[OF this] obtain l' ps' pre' where
      m: "(l', ps') \<in> set rest"
      and g: "samFetch reg ps' l' (((tr @ new1) @ [Delay 500]) @ pre')
              = (Inr (Some es), snd (runChain reg rest ((tr @ new1) @ [Delay 500])))"
      by blast
    have "samFetch reg ps' l' (tr @ (new1 @ [Delay 500] @ pre'))
          = (Inr (Some es), snd (runChain reg (s # rest) tr))"
      using g cont by simp
    with m show ?thesis by (intro exI[of _ l'] exI[of _ ps'] exI[of _ "new1 @ [Delay 500] @ pre'"]) simp
  next
    case False
    with Cons.prems f s assms(2) have "samFetch reg ps l tr = (Inr (Some es), snd (runChain reg (s # rest) tr))"
      by (auto simp: noResults_def split: sum.splits option.splits if_splits)
    then show ?thesis using s by (intro exI[of _ l] exI[of _ ps] exI[of _ "[]"]) simp
  qed
qed

lemma searchSamApi_trace:
  "searchSamApi apiKey reg name state domain tr0
     = runChain reg (applicableStrategies apiKey name state domain) tr0
   \<and> (\<exists>new. snd (searchSamApi apiKey reg name state domain tr0) = tr0 @ new
         \<and> strategiesOf new \<noteq> [] \<and> hd (strategiesOf new) = ''name+state''
         \<and> (\<exists>k. remdups_adj (strategiesOf new)
                  = take k ([''name+state''] @ (if truthy state then [''name only''] else [])
                            @ (if truthy domain then [''domain''] else []) @ [''samSearch'']))
         \<and> (''name only'' \<in> set (strategiesOf new) \<longrightarrow> truthy state)
         \<and> (''domain'' \<in> set (strategiesOf new) \<longrightarrow> truthy domain)
         \<and> (\<forall>es tr1. samFetch reg (paramsNameState apiKey (normalizeCompanyName name) state)
                        ''name+state'' tr0 = (Inr (Some es), tr1) \<and> es \<noteq> [] \<longrightarrow>
               searchSamApi apiKey reg name state domain tr0 = (Inr es, tr1)
               \<and> set (strategiesOf new) = {''name+state''}))"
proof -
  let ?strats = "applicableStrategies apiKey name state domain"
  let ?ps1 = "paramsNameState apiKey (normalizeCompanyName name) state"
  have eq: "searchSamApi apiKey reg name state domain tr0 = runChain reg ?strats tr0"
    by (rule searchSamApi_runChain)
  have ne: "?strats \<noteq> []" by (simp add: applicableStrategies_def)
  have hd1: "fst (hd ?strats) = ''name+state''" by (simp add: applicableStrategies_def)
  from runChain_trace[of reg ?strats tr0] ne applicable_distinct[of apiKey name state domain]
  obtain new k where t: "snd (runChain reg ?strats tr0) = tr0 @ new"
    and sub: "set (strategiesOf new) \<subseteq> fst ` set ?strats"
    and first: "strategiesOf new \<noteq> []" "hd (strategiesOf new) = fst (hd ?strats)"
    and ord: "remdups_adj (strategiesOf new) = take k (map fst ?strats)"
    by blast
  have labels: "fst ` set ?strats = set (map fst ?strats)" by simp
  have g2: "''name only'' \<in> set (strategiesOf new) \<longrightarrow> truthy state"
    using sub unfolding labels applicable_labels by (auto split: if_splits)
  have g3: "''domain'' \<in> set (strategiesOf new) \<longrightarrow> truthy domain"
    using sub unfolding labels applicable_labels by (auto split: if_splits)
  have stop: "searchSamApi apiKey reg name state domain tr0 = (Inr es, tr1)
               \<and> set (strategiesOf new) = {''name+state''}"
    if f: "samFetch reg ?ps1 ''name+state'' tr0 = (Inr (Some es), tr1)" and es: "es \<noteq> []"
    for es tr1
  proof -
    have r: "runChain reg ?strats tr0 = (Inr es, tr1)"
      by (subst applicable_first) (rule runChain_first_result[OF f es])
    with t have tr1: "tr1 = tr0 @ new" by simp
    from samFetch_trace[of reg ?ps1 "''name+state''" tr0] f tr1
    have "new = [Fetch ''name+state'' ?ps1]
        \<or> new = [Fetch ''name+state'' ?ps1, Delay 2000, Fetch ''name+state'' ?ps1]"
      by auto
    then have "set (strategiesOf new) = {''name+state''}" by auto
    with r eq show ?thesis by simp
  qed
  from eq t first hd1 ord g2 g3 stop show ?thesis
    unfolding applicable_labels by (intro conjI exI[of _ new]) (simp_all, blast)
qed

text \<open>
  C7. \<^const>\<open>searchSamApi\<close> is the loop over the applicable strategies (name with state;
  name only, if a state was given; domain, if a domain was given; keyword search) that
  stops at the first strategy with a result. Its requests start with the first strategy
  and follow that order, a label repeating only for its own retry; "name only" is
  requested only if a state hint was given and "domain" only if a domain hint was given;
  if the first strategy returns a result, that is the result and no other strategy
  sends a request; and whenever the chain returns a non-empty list, that list is what the
  last request of the trace returned: nothing is requested after a result.
\<close>

theorem strategy_chain:
  "searchSamApi apiKey reg name state domain tr0
     = runChain reg (applicableStrategies apiKey name state domain) tr0
   \<and> (\<exists>new. snd (searchSamApi apiKey reg name state domain tr0) = tr0 @ new
         \<and> strategiesOf new \<noteq> [] \<and> hd (strategiesOf new) = ''name+state''
         \<and> (\<exists>k. remdups_adj (strategiesOf new)
                  = take k ([''name+state''] @ (if truthy state then [''name only''] else [])
                            @ (if truthy domain then [''domain''] else []) @ [''samSearch'']))
         \<and> (''name only'' \<in> set (strategiesOf new) \<longrightarrow> truthy state)
         \<and> (''domain'' \<in> set (strategiesOf new) \<longrightarrow> truthy domain)
         \<and> (\<forall>es tr1. samFetch reg (paramsNameState apiKey (normalizeCompanyName name) state)
                        ''name+state'' tr0 = (Inr (Some es), tr1) \<and> es \<noteq> [] \<longrightarrow>
               searchSamApi apiKey reg name state domain tr0 = (Inr es, tr1)
               \<and> set (strategiesOf new) = {''name+state''}))
   \<and> (\<forall>es. fst (searchSamApi apiKey reg name state domain tr0) = Inr es \<and> es \<noteq> [] \<longrightarrow>
         (\<exists>l ps pre. (l, ps) \<in> set (applicableStrategies apiKey name state domain)
            \<and> samFetch reg ps l (tr0 @ pre)
                = (Inr (Some es), snd (searchSamApi apiKey reg name state domain tr0))))"
proof -
  have "\<forall>es. fst (searchSamApi apiKey reg name state domain tr0) = Inr es \<and> es \<noteq> [] \<longrightarrow>
         (\<exists>l ps pre. (l, ps) \<in> set (applicableStrategies apiKey name state domain)
            \<and> samFetch reg ps l (tr0 @ pre)
                = (Inr (Some es), snd (searchSamApi apiKey reg name state domain tr0)))"
    unfolding searchSamApi_runChain using runChain_result_last by blast
  with searchSamApi_trace[of apiKey reg name state domain tr0] show ?thesis by blast
qed

theorem strategy_chain_witness:
  "searchSamApi ''key'' exampleRegistry ''Acme Co'' (Some ''CA'') (Some ''acme.com'') []
     = (Inr [exampleEntity ''U7'' ''Acme Company''],
        [Fetch ''name+state'' (paramsNameState ''key'' ''acme'' (Some ''CA''))])
   \<and> strategiesOf (snd (searchSamApi ''key'' exampleRegistry ''Acme Co'' (Some ''TX'')
                          (Some ''acme.com'') []))
       = [''name+state'', ''name only'', ''domain'', ''samSearch'']
   \<and> truthy (Some ''TX'') \<and> truthy (Some ''acme.com'')"
proof -
  have n: "normalizeCompanyName ''Acme Co'' = ''acme''" by code_simp
  have f: "samFetch exampleRegistry (paramsNameState ''key'' (normalizeCompanyName ''Acme Co'')
             (Some ''CA'')) ''name+state'' []
           = (Inr (Some [exampleEntity ''U7'' ''Acme Company'']),
              [Fetch ''name+state'' (paramsNameState ''key'' ''acme'' (Some ''CA''))])"
    by (simp add: n samFetch_def exampleRegistry_def paramsNameState_def isOk_def json_def)
  have a: "searchSamApi ''key'' exampleRegistry ''Acme Co'' (Some ''CA'') (Some ''acme.com'') []
     = (Inr [exampleEntity ''U7'' ''Acme Company''],
        [Fetch ''name+state'' (paramsNameState ''key'' ''acme'' (Some ''CA''))])"
    using strategy_chain[of "''key''" exampleRegistry "''Acme Co''" "Some ''CA''"
        "Some ''acme.com''" "[]"] f
    by blast
  have s: "strategiesOf (snd (searchSamApi ''key'' exampleRegistry ''Acme Co'' (Some ''TX'')
                          (Some ''acme.com'') []))
       = [''name+state'', ''name only'', ''domain'', ''samSearch'']"
    by (simp add: n searchSamApi_def samFetch_def exampleRegistry_def paramsNameState_def
        paramsNameOnly_def paramsDomain_def paramsSamSearch_def orElse_def
        isOk_def json_def noResults_def truthy_def Let_def)
  from strategy_chain[of "''key''" exampleRegistry "''Acme Co''" "Some ''TX''"
        "Some ''acme.com''" "[]"]
  obtain new where t: "snd (searchSamApi ''key'' exampleRegistry ''Acme Co'' (Some ''TX'')
                          (Some ''acme.com'') []) = [] @ new"
    and g2: "''name only'' \<in> set (strategiesOf new) \<longrightarrow> truthy (Some ''TX'')"
    and g3: "''domain'' \<in> set (strategiesOf new) \<longrightarrow> truthy (Some ''acme.com'')"
    by blast
  from t s have "strategiesOf new = [''name+state'', ''name only'', ''domain'', ''samSearch'']"
    by simp
  with g2 g3 have "truthy (Some ''TX'')" "truthy (Some ''acme.com'')" by simp_all
  with a s show ?thesis by blast
qed


lemma searchSamApi_no_throw:
  assumes "\<forall>h q. \<exists>s b. reg h q = Reply s b \<and> (isOk s \<longrightarrow> b \<noteq> NotJson)"
  shows "\<exists>es. fst (searchSamApi apiKey reg name state domain tr0) = Inr es"
  using runChain_no_throw[OF assms] unfolding searchSamApi_runChain by blast

lemma searchSamByName_no_throw:
  assumes "\<forall>h q. \<exists>s b. registry e h q = Reply s b \<and> (isOk s \<longrightarrow> b \<noteq> NotJson)"
  shows "\<exists>es. fst (searchSamByName e name state domain tLookup tStore st) = Inr es"
proof -
  obtain searchCache tr where st: "st = (searchCache, tr)" by (cases st)
  define key where "key = cacheKey (normalizeCompanyName name) (normalizeStateCode state) domain"
  obtain localResults tr1 where l: "searchSamLocalDb (localDatabase e) name
      (normalizeStateCode state) domain tr = (localResults, tr1)"
    by (cases "searchSamLocalDb (localDatabase e) name (normalizeStateCode state) domain tr")
  from searchSamApi_no_throw[OF assms] obtain es1 where
    a1: "fst (searchSamApi (SAM_API_KEY e) (registry e) name
              (stateParam (normalizeStateCode state)) domain tr1)
         = Inr es1" by blast
  from searchSamApi_no_throw[OF assms] obtain es2 where
    a2: "fst (searchSamApi (SAM_API_KEY e) (registry e) name
              (stateParam (normalizeStateCode state)) domain tr)
         = Inr es2" by blast
  show ?thesis
    using l a1 a2
    by (auto simp: searchSamByName_def st Let_def split: option.splits prod.splits sum.splits)
qed

text \<open>
  C8. Within one strategy, a 429 response is followed by a delay of 2000 ms and exactly
  one more request with the same parameters; a retry that is not OK, or a first response
  that is not OK and not 429, gives zero results without reading the body. A strategy
  with zero results is followed, after 500 ms, by the rest of the chain; when every
  response is a failure every applicable strategy is tried and the result is the empty
  list. Retrieval throws only when no response arrives at all or an OK response carries
  no JSON: if the registry always answers, and with JSON whenever it answers OK, the
  caller of \<^const>\<open>searchSamApi\<close>, and of \<^const>\<open>searchSamByName\<close> around it, gets a
  list.
\<close>

theorem transient_failures:
  "(\<forall>b. reg tr ps = Reply 429 b \<longrightarrow>
       snd (samFetch reg ps l tr) = tr @ [Fetch l ps, Delay 2000, Fetch l ps]
       \<and> (\<forall>s' b'. reg (tr @ [Fetch l ps, Delay 2000]) ps = Reply s' b' \<and> \<not> isOk s' \<longrightarrow>
             fst (samFetch reg ps l tr) = Inr (Some []))
       \<and> (\<forall>s' b'. reg (tr @ [Fetch l ps, Delay 2000]) ps = Reply s' b' \<and> isOk s' \<longrightarrow>
             fst (samFetch reg ps l tr) = json b'))
   \<and> (\<forall>s b. reg tr ps = Reply s b \<and> s \<noteq> 429 \<and> \<not> isOk s \<longrightarrow>
         samFetch reg ps l tr = (Inr (Some []), tr @ [Fetch l ps]))
   \<and> (noResults (fst (samFetch reg ps l tr)) \<and> rest \<noteq> [] \<longrightarrow>
         runChain reg ((l, ps) # rest) tr
           = runChain reg rest (snd (samFetch reg ps l tr) @ [Delay 500]))
   \<and> ((\<forall>h q. \<exists>s b. reg h q = Reply s b \<and> \<not> isOk s) \<longrightarrow>
         fst (searchSamApi apiKey reg name state domain tr0) = Inr []
         \<and> (\<exists>new. snd (searchSamApi apiKey reg name state domain tr0) = tr0 @ new
               \<and> remdups_adj (strategiesOf new)
                   = [''name+state''] @ (if truthy state then [''name only''] else [])
                     @ (if truthy domain then [''domain''] else []) @ [''samSearch'']))
   \<and> ((\<forall>h q. \<exists>s b. reg h q = Reply s b \<and> (isOk s \<longrightarrow> b \<noteq> NotJson)) \<longrightarrow>
         (\<exists>es. fst (searchSamApi apiKey reg name state domain tr0) = Inr es))
   \<and> ((\<forall>h q. \<exists>s b. registry e h q = Reply s b \<and> (isOk s \<longrightarrow> b \<noteq> NotJson)) \<longrightarrow>
         (\<exists>es. fst (searchSamByName e name state domain tLookup tStore st) = Inr es))"
proof -
  have p1: "\<forall>b. reg tr ps = Reply 429 b \<longrightarrow>
       snd (samFetch reg ps l tr) = tr @ [Fetch l ps, Delay 2000, Fetch l ps]
       \<and> (\<forall>s' b'. reg (tr @ [Fetch l ps, Delay 2000]) ps = Reply s' b' \<and> \<not> isOk s' \<longrightarrow>
             fst (samFetch reg ps l tr) = Inr (Some []))
       \<and> (\<forall>s' b'. reg (tr @ [Fetch l ps, Delay 2000]) ps = Reply s' b' \<and> isOk s' \<longrightarrow>
             fst (samFetch reg ps l tr) = json b')"
    by (auto simp: samFetch_def Let_def split: reply.splits)
  have p2: "\<forall>s b. reg tr ps = Reply s b \<and> s \<noteq> 429 \<and> \<not> isOk s \<longrightarrow>
         samFetch reg ps l tr = (Inr (Some []), tr @ [Fetch l ps])"
    by (simp add: samFetch_def Let_def)
  have p3: "noResults (fst (samFetch reg ps l tr)) \<and> rest \<noteq> [] \<longrightarrow>
         runChain reg ((l, ps) # rest) tr
           = runChain reg rest (snd (samFetch reg ps l tr) @ [Delay 500])"
    using runChain_continue[of reg ps l tr rest] by blast
  have p4: "(\<forall>h q. \<exists>s b. reg h q = Reply s b \<and> \<not> isOk s) \<longrightarrow>
         fst (searchSamApi apiKey reg name state domain tr0) = Inr []
         \<and> (\<exists>new. snd (searchSamApi apiKey reg name state domain tr0) = tr0 @ new
               \<and> remdups_adj (strategiesOf new)
                   = [''name+state''] @ (if truthy state then [''name only''] else [])
                     @ (if truthy domain then [''domain''] else []) @ [''samSearch''])"
  proof
    assume a: "\<forall>h q. \<exists>s b. reg h q = Reply s b \<and> \<not> isOk s"
    from runChain_all_fail[OF a applicable_distinct, of apiKey name state domain tr0]
    show "fst (searchSamApi apiKey reg name state domain tr0) = Inr []
         \<and> (\<exists>new. snd (searchSamApi apiKey reg name state domain tr0) = tr0 @ new
               \<and> remdups_adj (strategiesOf new)
                   = [''name+state''] @ (if truthy state then [''name only''] else [])
                     @ (if truthy domain then [''domain''] else []) @ [''samSearch''])"
      unfolding searchSamApi_runChain applicable_labels .
  qed
  have p5: "(\<forall>h q. \<exists>s b. reg h q = Reply s b \<and> (isOk s \<longrightarrow> b \<noteq> NotJson)) \<longrightarrow>
         (\<exists>es. fst (searchSamApi apiKey reg name state domain tr0) = Inr es)"
    using searchSamApi_no_throw[of reg] by blast
  have p6: "(\<forall>h q. \<exists>s b. registry e h q = Reply s b \<and> (isOk s \<longrightarrow> b \<noteq> NotJson)) \<longrightarrow>
         (\<exists>es. fst (searchSamByName e name state domain tLookup tStore st) = Inr es)"
    using searchSamByName_no_throw[of e] by blast
  from p1 p2 p3 p4 p5 p6 show ?thesis by blast
qed


theorem transient_failures_witness:
  "failingRegistry [] [(''samSearch'', ''acme'')] = Reply 429 NotJson
   \<and> samFetch failingRegistry [(''samSearch'', ''acme'')] ''samSearch'' []
       = (Inr (Some []),
          [Fetch ''samSearch'' [(''samSearch'', ''acme'')], Delay 2000,
           Fetch ''samSearch'' [(''samSearch'', ''acme'')]])
   \<and> fst (searchSamApi ''key'' failingRegistry ''Acme Co'' (Some ''CA'') None []) = Inr []
   \<and> strategiesOf (snd (searchSamApi ''key'' failingRegistry ''Acme Co'' (Some ''CA'') None []))
       = [''name+state'', ''name+state'', ''name only'', ''samSearch'']
   \<and> samFetch failingRegistry [(''samSearch'', ''acme'')] ''samSearch'' [Delay 500]
       = (Inr (Some []), [Delay 500, Fetch ''samSearch'' [(''samSearch'', ''acme'')]])"
proof -
  let ?ps = "[(''samSearch'', ''acme'')]"
  note th = transient_failures[of failingRegistry "[]" ?ps "''samSearch''" "[]" "''key''"
      "''Acme Co''" "Some ''CA''" None "[]"]
  have r1: "failingRegistry [] ?ps = Reply 429 NotJson" by (simp add: failingRegistry_def)
  have r2: "failingRegistry ([] @ [Fetch ''samSearch'' ?ps, Delay 2000]) ?ps = Reply 503 NotJson"
    by (simp add: failingRegistry_def)
  have n2: "\<not> isOk 503" by (simp add: isOk_def)
  from th r1 have t: "snd (samFetch failingRegistry ?ps ''samSearch'' [])
      = [] @ [Fetch ''samSearch'' ?ps, Delay 2000, Fetch ''samSearch'' ?ps]"
    by blast
  from th r1 r2 n2 have d: "fst (samFetch failingRegistry ?ps ''samSearch'' []) = Inr (Some [])"
    by blast
  from t d have a: "samFetch failingRegistry ?ps ''samSearch'' []
       = (Inr (Some []), [Fetch ''samSearch'' ?ps, Delay 2000, Fetch ''samSearch'' ?ps])"
    by (cases "samFetch failingRegistry ?ps ''samSearch'' []") simp
  have allfail: "\<forall>h q. \<exists>s b. failingRegistry h q = Reply s b \<and> \<not> isOk s"
    by (simp add: failingRegistry_def isOk_def)
  with th have b: "fst (searchSamApi ''key'' failingRegistry ''Acme Co'' (Some ''CA'') None [])
      = Inr []"
    by blast
  have n: "normalizeCompanyName ''Acme Co'' = ''acme''" by code_simp
  have c: "strategiesOf (snd (searchSamApi ''key'' failingRegistry ''Acme Co'' (Some ''CA'') None []))
       = [''name+state'', ''name+state'', ''name only'', ''samSearch'']"
    by (simp add: n searchSamApi_def samFetch_def failingRegistry_def paramsNameState_def
        paramsNameOnly_def paramsDomain_def paramsSamSearch_def orElse_def
        isOk_def json_def noResults_def truthy_def Let_def)
  have r3: "failingRegistry [Delay 500] ?ps = Reply 503 NotJson"
    by (simp add: failingRegistry_def)
  have ne: "(503::nat) \<noteq> 429" by simp
  note th2 = transient_failures[of failingRegistry "[Delay 500]" ?ps "''samSearch''" "[]" "''key''"
      "''Acme Co''" "Some ''CA''" None "[]"]
  from th2 r3 ne n2 have e: "samFetch failingRegistry ?ps ''samSearch'' [Delay 500]
       = (Inr (Some []), [Delay 500] @ [Fetch ''samSearch'' ?ps])"
    by blast
  from r1 a b c e show ?thesis by simp
qed

section \<open>Properties of \<^verbatim>\<open>processCompanyCreation\<close>\<close>

text \<open>
  C10, as the code has it. The guard is \<^verbatim>\<open>if (!companyName) return\<close>: a missing or empty
  name ends the resolution at once, with the cache and the trace untouched, so no request
  goes out.
\<close>

theorem empty_name_short_circuit:
  assumes "\<not> truthy (prop_name p)"
  shows "processCompanyCreation e (Inr p) tLookup tStore st = (Skipped, st)
       \<and> backendQueries (snd (snd (processCompanyCreation e (Inr p) tLookup tStore st)))
           = backendQueries (snd st)"
  using assms by (simp add: processCompanyCreation_def truthy_def split: option.splits)

theorem empty_name_short_circuit_witness:
  "\<not> truthy (prop_name (companyNamed ''''))
   \<and> processCompanyCreation exampleEnv (Inr (companyNamed '''')) 1700000000000 1700000000500
        (Map.empty, []) = (Skipped, (Map.empty, []))
   \<and> backendQueries (snd (snd (processCompanyCreation exampleEnv (Inr (companyNamed ''''))
        1700000000000 1700000000500 (Map.empty, [])))) = []"
proof -
  have h: "\<not> truthy (prop_name (companyNamed ''''))"
    by (simp add: companyNamed_def truthy_def)
  from empty_name_short_circuit[OF h, of exampleEnv 1700000000000 1700000000500 "(Map.empty, [])"] h
  show ?thesis by simp
qed


text \<open>
  C10, as the specification states it, fails: the guard looks at the name, not at its
  normal form. "Inc" is not empty, normalizes to the empty string, and is searched: with
  an empty cache and the registry queried directly, two requests go out (strategy 1 and
  the keyword search, both for the empty name), and the outcome is \<^const>\<open>NoMatch\<close>.
\<close>

theorem normalized_empty_name_counterexample:
  "normalizeCompanyName ''Inc'' = ''''
   \<and> fst (processCompanyCreation exampleEnv (Inr (companyNamed ''Inc''))
        1700000000000 1700000000500 (Map.empty, [])) = NoMatch []
   \<and> backendQueries (snd (snd (processCompanyCreation exampleEnv (Inr (companyNamed ''Inc''))
        1700000000000 1700000000500 (Map.empty, []))))
       = [Fetch ''name+state''
            [(''api_key'', ''key''), (''legalBusinessName'', ''''), (''registrationStatus'', ''A'')],
          Fetch ''samSearch''
            [(''api_key'', ''key''), (''samSearch'', ''''), (''registrationStatus'', ''A'')]]"
proof -
  have n: "normalizeCompanyName ''Inc'' = ''''" by code_simp
  have s: "searchSamApi ''key'' exampleRegistry ''Inc'' None None []
      = (Inr [], [Fetch ''name+state''
            [(''api_key'', ''key''), (''legalBusinessName'', ''''), (''registrationStatus'', ''A'')],
          Delay 500,
          Fetch ''samSearch''
            [(''api_key'', ''key''), (''samSearch'', ''''), (''registrationStatus'', ''A'')]])"
    by (simp add: n searchSamApi_def samFetch_def exampleRegistry_def paramsNameState_def
        paramsNameOnly_def paramsDomain_def paramsSamSearch_def orElse_def
        isOk_def json_def noResults_def truthy_def Let_def)
  have p: "processCompanyCreation exampleEnv (Inr (companyNamed ''Inc''))
        1700000000000 1700000000500 (Map.empty, [])
      = (NoMatch [],
         Map.empty(cacheKey '''' None None \<mapsto> \<lparr> cache_data = [], cache_timestamp = 1700000000500 \<rparr>),
         [Fetch ''name+state''
            [(''api_key'', ''key''), (''legalBusinessName'', ''''), (''registrationStatus'', ''A'')],
          Delay 500,
          Fetch ''samSearch''
            [(''api_key'', ''key''), (''samSearch'', ''''), (''registrationStatus'', ''A'')]])"
    by (simp add: processCompanyCreation_def companyNamed_def searchSamByName_def exampleEnv_def
        normalizeStateCode_def stateParam_def n s classify_def Let_def)
  show ?thesis by (simp add: n p)
qed

end
